theory Spec2Isabelle
  imports Complex_Main
begin

section \<open>The Samurai identifier splitter (spiral/samurai.py)\<close>

text \<open>
  A shallow embedding of \<^verbatim>\<open>src/spiral/samurai.py\<close>. Strings are HOL strings, and
  \<open>lower\<close> maps the ASCII letters \<^verbatim>\<open>A-Z\<close> to \<^verbatim>\<open>a-z\<close> character by character, which is
  Python's \<^verbatim>\<open>str.lower()\<close> on strings of ASCII characters. A second embedding of the
  same-case splitter, on lists of code points, covers a string on which \<^verbatim>\<open>str.lower()\<close>
  changes the length. Scores are real numbers: Python's floats are idealised, and
  \<^verbatim>\<open>math.pow(x, y)\<close> is \<open>x powr y\<close> for \<open>0 \<le> x\<close> and raises \<^verbatim>\<open>ValueError\<close> for a negative
  base with the fractional exponents used here.

  Three collaborators are imported by the module and are parameters of the model:
  \<^item> \<open>freq\<close>, the corpus lookup \<^verbatim>\<open>word_frequency\<close> of \<^verbatim>\<open>frequencies.py\<close>;
  \<^item> \<open>dict\<close>, the spelling check \<^verbatim>\<open>_dictionary.check\<close> of PyEnchant;
  \<^item> \<open>ss\<close>, the delimiter splitter \<^verbatim>\<open>simple_split\<close> of \<^verbatim>\<open>simple_splitters.py\<close>.
\<close>

subsection \<open>Errors, characters and the affix tables\<close>

datatype error = ValueError | IndexError

type_synonym frequency = "string \<Rightarrow> real"
type_synonym dictionary = "string \<Rightarrow> bool"

definition upper_AZ :: "char \<Rightarrow> bool" where
  "upper_AZ c \<longleftrightarrow> 65 \<le> (of_char c :: nat) \<and> (of_char c :: nat) \<le> 90"

definition lower_az :: "char \<Rightarrow> bool" where
  "lower_az c \<longleftrightarrow> 97 \<le> (of_char c :: nat) \<and> (of_char c :: nat) \<le> 122"

definition lower_char :: "char \<Rightarrow> char" where
  "lower_char c = (if upper_AZ c then char_of (of_char c + (32 :: nat)) else c)"

definition lower :: "string \<Rightarrow> string" where
  "lower s = map lower_char s"

text \<open>The strings on which \<open>lower\<close> is \<^verbatim>\<open>str.lower()\<close>: those of ASCII characters.\<close>

definition is_ascii :: "string \<Rightarrow> bool" where
  "is_ascii s \<longleftrightarrow> (\<forall>c \<in> set s. (of_char c :: nat) < 128)"

definition prefix_list :: "string list" where
  "prefix_list = [''afro'', ''ambi'', ''amphi'', ''ana'', ''anglo'', ''apo'', ''astro'',
     ''bi'', ''bio'', ''circum'', ''cis'', ''co'', ''col'', ''com'', ''con'', ''contra'',
     ''cor'', ''cryo'', ''crypto'', ''de'', ''de'', ''demi'', ''di'', ''dif'', ''dis'',
     ''du'', ''duo'', ''eco'', ''electro'', ''em'', ''en'', ''epi'', ''euro'', ''ex'',
     ''franco'', ''geo'', ''hemi'', ''hetero'', ''homo'', ''hydro'', ''hypo'', ''ideo'',
     ''idio'', ''il'', ''im'', ''infra'', ''inter'', ''intra'', ''ir'', ''iso'', ''macr'',
     ''mal'', ''maxi'', ''mega'', ''megalo'', ''micro'', ''midi'', ''mini'', ''mis'',
     ''mon'', ''multi'', ''neo'', ''omni'', ''paleo'', ''para'', ''ped'', ''peri'', ''poly'',
     ''pre'', ''preter'', ''proto'', ''pyro'', ''re'', ''retro'', ''semi'', ''socio'',
     ''supra'', ''sur'', ''sy'', ''syl'', ''sym'', ''syn'', ''tele'', ''trans'', ''tri'',
     ''twi'', ''ultra'', ''un'', ''uni'']"

definition suffix_list :: "string list" where
  "suffix_list = [''a'', ''ac'', ''acea'', ''aceae'', ''acean'', ''aceous'', ''ade'',
     ''aemia'', ''agogue'', ''aholic'', ''al'', ''ales'', ''algia'', ''amine'', ''ana'',
     ''anae'', ''ance'', ''ancy'', ''androus'', ''andry'', ''ane'', ''ar'', ''archy'',
     ''ard'', ''aria'', ''arian'', ''arium'', ''ary'', ''ase'', ''athon'', ''ation'',
     ''ative'', ''ator'', ''atory'', ''biont'', ''biosis'', ''cade'', ''caine'', ''carp'',
     ''carpic'', ''carpous'', ''cele'', ''cene'', ''centric'', ''cephalic'', ''cephalous'',
     ''cephaly'', ''chory'', ''chrome'', ''cide'', ''clast'', ''clinal'', ''cline'',
     ''coccus'', ''coel'', ''coele'', ''colous'', ''cracy'', ''crat'', ''cratic'',
     ''cratical'', ''cy'', ''cyte'', ''derm'', ''derma'', ''dermatous'', ''dom'', ''drome'',
     ''dromous'', ''eae'', ''ectomy'', ''ed'', ''ee'', ''eer'', ''ein'', ''eme'', ''emia'',
     ''en'', ''ence'', ''enchyma'', ''ency'', ''ene'', ''ent'', ''eous'', ''er'', ''ergic'',
     ''ergy'', ''es'', ''escence'', ''escent'', ''ese'', ''esque'', ''ess'', ''est'', ''et'',
     ''eth'', ''etic'', ''ette'', ''ey'', ''facient'', ''fer'', ''ferous'', ''fic'',
     ''fication'', ''fid'', ''florous'', ''foliate'', ''foliolate'', ''fuge'', ''ful'',
     ''fy'', ''gamous'', ''gamy'', ''gen'', ''genesis'', ''genic'', ''genous'', ''geny'',
     ''gnathous'', ''gon'', ''gony'', ''grapher'', ''graphy'', ''gyne'', ''gynous'',
     ''gyny'', ''ia'', ''ial'', ''ian'', ''iana'', ''iasis'', ''iatric'', ''iatrics'',
     ''iatry'', ''ibility'', ''ible'', ''ic'', ''icide'', ''ician'', ''ick obsolete'',
     ''ics'', ''idae'', ''ide'', ''ie'', ''ify'', ''ile'', ''ina'', ''inae'', ''ine'',
     ''ineae'', ''ing'', ''ini'', ''ious'', ''isation'', ''ise'', ''ish'', ''ism'', ''ist'',
     ''istic'', ''istical'', ''istically'', ''ite'', ''itious'', ''itis'', ''ity'', ''ium'',
     ''ive'', ''ization'', ''ize'', ''kinesis'', ''kins'', ''latry'', ''lepry'', ''ling'',
     ''lite'', ''lith'', ''lithic'', ''logue'', ''logist'', ''logy'', ''ly'', ''lyse'',
     ''lysis'', ''lyte'', ''lytic'', ''lyze'', ''mancy'', ''mania'', ''meister'', ''ment'',
     ''merous'', ''metry'', ''mo'', ''morph'', ''morphic'', ''morphism'', ''morphous'',
     ''mycete'', ''mycetes'', ''mycetidae'', ''mycin'', ''mycota'', ''mycotina'', ''ness'',
     ''nik'', ''nomy'', ''odon'', ''odont'', ''odontia'', ''oholic'', ''oic'', ''oid'',
     ''oidea'', ''oideae'', ''ol'', ''ole'', ''oma'', ''ome'', ''ont'', ''onym'', ''onymy'',
     ''opia'', ''opsida'', ''opsis'', ''opsy'', ''orama'', ''ory'', ''ose'', ''osis'',
     ''otic'', ''otomy'', ''ous'', ''para'', ''parous'', ''pathy'', ''ped'', ''pede'',
     ''penia'', ''phage'', ''phagia'', ''phagous'', ''phagy'', ''phane'', ''phasia'',
     ''phil'', ''phile'', ''philia'', ''philiac'', ''philic'', ''philous'', ''phobe'',
     ''phobia'', ''phobic'', ''phony'', ''phore'', ''phoresis'', ''phorous'', ''phrenia'',
     ''phyll'', ''phyllous'', ''phyceae'', ''phycidae'', ''phyta'', ''phyte'', ''phytina'',
     ''plasia'', ''plasm'', ''plast'', ''plasty'', ''plegia'', ''plex'', ''ploid'', ''pode'',
     ''podous'', ''poieses'', ''poietic'', ''pter'', ''rrhagia'', ''rrhea'', ''ric'', ''ry'',
     ''s'', ''scopy'', ''sepalous'', ''sperm'', ''sporous'', ''st'', ''stasis'', ''stat'',
     ''ster'', ''stome'', ''stomy'', ''taxy'', ''th'', ''therm'', ''thermal'', ''thermic'',
     ''thermy'', ''thon'', ''thymia'', ''tion'', ''tome'', ''tomy'', ''tonia'', ''trichous'',
     ''trix'', ''tron'', ''trophic'', ''tropism'', ''tropous'', ''tropy'', ''tude'', ''ty'',
     ''ular'', ''ule'', ''ure'', ''urgy'', ''uria'', ''uronic'', ''urous'', ''valent'',
     ''virile'', ''vorous'', ''xor'', ''y'', ''yl'', ''yne'', ''zoic'', ''zoon'', ''zygous'',
     ''zyme'']"

subsection \<open>Utilities\<close>

text \<open>\<^verbatim>\<open>math.pow\<close> on the exponents \<^verbatim>\<open>1.0/2\<close> and \<^verbatim>\<open>1.0/2.5\<close>.\<close>

definition math_pow :: "real \<Rightarrow> real \<Rightarrow> error + real" where
  "math_pow x y = (if x < 0 then Inl ValueError else Inr (x powr y))"

definition in_dictionary :: "dictionary \<Rightarrow> string \<Rightarrow> bool" where
  "in_dictionary dict word = dict (lower word)"

definition is_prefix :: "string \<Rightarrow> bool" where
  "is_prefix s \<longleftrightarrow> lower s \<in> set prefix_list"

definition is_suffix :: "string \<Rightarrow> bool" where
  "is_suffix s \<longleftrightarrow> lower s \<in> set suffix_list"

definition score :: "frequency \<Rightarrow> string \<Rightarrow> real" where
  "score freq w = (let f = freq w in if f < 30 then 0 else f)"

definition rescale :: "dictionary \<Rightarrow> string \<Rightarrow> real \<Rightarrow> error + real" where
  "rescale dict token value =
     (if length token \<le> 1 then Inr 0
      else if length token \<le> 4 \<and> in_dictionary dict token then math_pow value (1 / 2)
      else math_pow value (1 / 2.5))"


lemma score_nonneg: "0 \<le> score freq w"
  by (simp add: score_def Let_def)

lemma rescale_short: "length token \<le> 1 \<Longrightarrow> rescale dict token v = Inr 0"
  by (simp add: rescale_def)

lemma rescale_gt_length:
  assumes "rescale dict token v = Inr r" and "threshold < r" and "0 \<le> threshold"
  shows "2 \<le> length token"
proof (rule ccontr)
  assume "\<not> 2 \<le> length token"
  then have "rescale dict token v = Inr 0"
    by (simp add: rescale_short)
  with assms show False by simp
qed

subsection \<open>The same-case splitter\<close>

text \<open>
  \<open>same_case_split\<close> is the function of that name; \<open>scan\<close> is its \<^verbatim>\<open>while i < n\<close> loop,
  with the loop variables \<^verbatim>\<open>i\<close>, \<^verbatim>\<open>split\<close> and \<^verbatim>\<open>max_score\<close> as arguments and the value of
  \<^verbatim>\<open>split\<close> after the loop as result.
\<close>

function same_case_split :: "frequency \<Rightarrow> dictionary \<Rightarrow> string \<Rightarrow> real \<Rightarrow> error + string list"
  and scan :: "frequency \<Rightarrow> dictionary \<Rightarrow> string \<Rightarrow> real \<Rightarrow> real \<Rightarrow> nat
                 \<Rightarrow> string list option \<Rightarrow> real \<Rightarrow> error + string list option"
where
  "same_case_split freq dict s score_ns =
     (if length s < 2 then Inr [s]
      else if length s > 1 \<and> in_dictionary dict s then Inr [s]
      else (let threshold = max (score freq s) score_ns in
        case scan freq dict s score_ns threshold 0 None (- 1) of
          Inl e \<Rightarrow> Inl e
        | Inr split \<Rightarrow>
            Inr (case split of None \<Rightarrow> [s] | Some sp \<Rightarrow> if sp = [] then [s] else sp)))"
| "scan freq dict s score_ns threshold i split max_score =
     (if i < length s then
        (let left = take i s;
             right = drop i s;
             score_l = score freq left;
             score_r = score freq right;
             prefix = (is_prefix left \<or> is_suffix right)
         in case rescale dict left score_l of
              Inl e \<Rightarrow> Inl e
            | Inr rescaled_l \<Rightarrow>
           (case rescale dict right score_r of
              Inl e \<Rightarrow> Inl e
            | Inr rescaled_r \<Rightarrow>
           (let to_split_l = (rescaled_l > threshold);
                to_split_r = (rescaled_r > threshold)
            in if \<not> prefix \<and> to_split_l \<and> to_split_r then
                 (if score_l + score_r > max_score
                  then scan freq dict s score_ns threshold (i + 1)
                         (Some [left, right]) (score_l + score_r)
                  else scan freq dict s score_ns threshold (i + 1) split max_score)
               else if \<not> prefix \<and> to_split_l then
                 (case same_case_split freq dict right score_ns of
                    Inl e \<Rightarrow> Inl e
                  | Inr tmp \<Rightarrow>
                      (case tmp of
                         [] \<Rightarrow> Inl IndexError
                       | t # _ \<Rightarrow>
                           if t \<noteq> right
                           then scan freq dict s score_ns threshold (i + 1)
                                  (Some ([left] @ tmp)) max_score
                           else scan freq dict s score_ns threshold (i + 1) split max_score))
               else scan freq dict s score_ns threshold (i + 1) split max_score)))
      else Inr split)"
  by pat_completeness auto

text \<open>
  Termination. A call of \<open>same_case_split\<close> starts the scan with a threshold that is not
  negative; such a scan calls \<open>same_case_split\<close> only on \<open>drop i s\<close> with \<open>2 \<le> i\<close>. The
  measure also orders the scans with a negative threshold, which the program never starts.
\<close>

lemma same_case_split_scan_total: "All same_case_split_scan_dom"
proof (relation "inv_image (measure id <*lex*> measure id <*lex*> measure id)
     (\<lambda>x. case x of
         Inl (freq, dict, s, score_ns) \<Rightarrow> (length s, 0::nat, Suc (length s))
       | Inr (freq, dict, s, score_ns, threshold, i, split, max_score) \<Rightarrow>
           (length s, if threshold < 0 then 1 else 0, length s - i))", goal_cases)
  case 1
  show ?case by (intro wf_inv_image wf_lex_prod wf_measure)
next
  case (2 freq dict s score_ns x)
  have "0 \<le> x" using 2 score_nonneg [of freq s] by simp
  then show ?case by simp
next
  case 3
  then show ?case by auto
next
  case 4
  then show ?case by auto
next
  case (5 freq dict s score_ns threshold i split max_score x xa xb xc xd b ba xe xf)
  show ?case
  proof (cases "threshold < 0")
    case True
    then show ?thesis using 5 by auto
  next
    case False
    then have "2 \<le> length (take i s)"
      using 5 rescale_gt_length [of dict "take i s" xb b threshold] by simp
    then show ?thesis using 5 False by auto
  qed
next
  case 6
  then show ?case by auto
next
  case 7
  then show ?case by auto
next
  case 8
  then show ?case by auto
qed

termination same_case_split
  by (rule same_case_split_scan_total)

declare same_case_split.simps [simp del] scan.simps [simp del]

subsection \<open>The top-level splitter\<close>

text \<open>The first match of \<^verbatim>\<open>re.search(r'[A-Z][a-z]', s)\<close>: its start index, if any.\<close>

fun re_search :: "string \<Rightarrow> nat option" where
  "re_search (a # b # cs) =
     (if upper_AZ a \<and> lower_az b then Some 0 else map_option Suc (re_search (b # cs)))"
| "re_search _ = None"

text \<open>The body of the first loop of \<^verbatim>\<open>samurai_split\<close>: the \<^verbatim>\<open>parts\<close> of one segment.\<close>

definition transition_parts :: "frequency \<Rightarrow> dictionary \<Rightarrow> string \<Rightarrow> error + string list" where
  "transition_parts freq dict s =
     (case re_search s of
        None \<Rightarrow> Inr [s]
      | Some i \<Rightarrow>
          (let camel_score = (if i > 0 then score freq (drop i s) else score freq s);
               alt = drop (i + 1) s;
               alt_score = score freq alt
           in case rescale dict alt alt_score of
                Inl e \<Rightarrow> Inl e
              | Inr rescaled_alt \<Rightarrow>
                  if camel_score > rescaled_alt
                  then (if i > 0 then Inr [take i s, drop i s] else Inr [s])
                  else Inr [take (i + 1) s, drop (i + 1) s]))"

text \<open>The two loops of \<^verbatim>\<open>samurai_split\<close>, each with its accumulator.\<close>

fun split_segments :: "frequency \<Rightarrow> dictionary \<Rightarrow> string list \<Rightarrow> string list
                         \<Rightarrow> error + string list" where
  "split_segments freq dict [] splits = Inr splits"
| "split_segments freq dict (s # segments) splits =
     (case transition_parts freq dict s of
        Inl e \<Rightarrow> Inl e
      | Inr parts \<Rightarrow> split_segments freq dict segments (splits @ parts))"

fun split_tokens :: "frequency \<Rightarrow> dictionary \<Rightarrow> string list \<Rightarrow> string list
                       \<Rightarrow> error + string list" where
  "split_tokens freq dict [] results = Inr results"
| "split_tokens freq dict (token # tokens) results =
     (case same_case_split freq dict token (score freq token) of
        Inl e \<Rightarrow> Inl e
      | Inr r \<Rightarrow> split_tokens freq dict tokens (results @ r))"

definition samurai_split :: "frequency \<Rightarrow> dictionary \<Rightarrow> (string \<Rightarrow> string list) \<Rightarrow> string
                               \<Rightarrow> error + string list" where
  "samurai_split freq dict simple_split identifier =
     (case split_segments freq dict (simple_split identifier) [] of
        Inl e \<Rightarrow> Inl e
      | Inr splits \<Rightarrow> split_tokens freq dict splits [])"

subsection \<open>The same-case splitter on strings of code points\<close>

text \<open>
  A Python string is a sequence of Unicode code points, and \<^verbatim>\<open>str.lower()\<close> is not
  characterwise on all of them: \<^verbatim>\<open>U+0130\<close> (capital I with dot above) lower-cases to the two
  code points \<^verbatim>\<open>U+0069 U+0307\<close>. The definitions below are the same functions on lists of
  code points. \<open>lower_u\<close> is \<^verbatim>\<open>str.lower()\<close> on the strings over the ASCII code points,
  \<^verbatim>\<open>U+0130\<close> and the combining dot \<^verbatim>\<open>U+0307\<close>; it leaves every other code point as it is.
  \<open>ustr\<close> reads a HOL string as its list of code points. Every function keeps the name of
  its counterpart, with the suffix \<open>_u\<close>.
\<close>

type_synonym ustring = "nat list"

definition ustr :: "string \<Rightarrow> ustring" where
  "ustr s = map of_char s"

definition lower_cp :: "nat \<Rightarrow> ustring" where
  "lower_cp c =
     (if 65 \<le> c \<and> c \<le> 90 then [c + 32]
      else if c = 304 then [105, 775]
      else [c])"

definition lower_u :: "ustring \<Rightarrow> ustring" where
  "lower_u s = concat (map lower_cp s)"

definition in_dictionary_u :: "(ustring \<Rightarrow> bool) \<Rightarrow> ustring \<Rightarrow> bool" where
  "in_dictionary_u dict word = dict (lower_u word)"

definition is_prefix_u :: "ustring \<Rightarrow> bool" where
  "is_prefix_u s \<longleftrightarrow> lower_u s \<in> set (map ustr prefix_list)"

definition is_suffix_u :: "ustring \<Rightarrow> bool" where
  "is_suffix_u s \<longleftrightarrow> lower_u s \<in> set (map ustr suffix_list)"

definition score_u :: "(ustring \<Rightarrow> real) \<Rightarrow> ustring \<Rightarrow> real" where
  "score_u freq w = (let f = freq w in if f < 30 then 0 else f)"

definition rescale_u :: "(ustring \<Rightarrow> bool) \<Rightarrow> ustring \<Rightarrow> real \<Rightarrow> error + real" where
  "rescale_u dict token value =
     (if length token \<le> 1 then Inr 0
      else if length token \<le> 4 \<and> in_dictionary_u dict token then math_pow value (1 / 2)
      else math_pow value (1 / 2.5))"

lemma score_u_nonneg: "0 \<le> score_u freq w"
  by (simp add: score_u_def Let_def)

lemma rescale_u_gt_length:
  assumes "rescale_u dict token v = Inr r" and "threshold < r" and "0 \<le> threshold"
  shows "2 \<le> length token"
proof (rule ccontr)
  assume "\<not> 2 \<le> length token"
  then have "rescale_u dict token v = Inr 0"
    by (simp add: rescale_u_def)
  with assms show False by simp
qed

function same_case_split_u ::
    "(ustring \<Rightarrow> real) \<Rightarrow> (ustring \<Rightarrow> bool) \<Rightarrow> ustring \<Rightarrow> real \<Rightarrow> error + ustring list"
  and scan_u ::
    "(ustring \<Rightarrow> real) \<Rightarrow> (ustring \<Rightarrow> bool) \<Rightarrow> ustring \<Rightarrow> real \<Rightarrow> real \<Rightarrow> nat
       \<Rightarrow> ustring list option \<Rightarrow> real \<Rightarrow> error + ustring list option"
where
  "same_case_split_u freq dict s score_ns =
     (if length s < 2 then Inr [s]
      else if length s > 1 \<and> in_dictionary_u dict s then Inr [s]
      else (let threshold = max (score_u freq s) score_ns in
        case scan_u freq dict s score_ns threshold 0 None (- 1) of
          Inl e \<Rightarrow> Inl e
        | Inr split \<Rightarrow>
            Inr (case split of None \<Rightarrow> [s] | Some sp \<Rightarrow> if sp = [] then [s] else sp)))"
| "scan_u freq dict s score_ns threshold i split max_score =
     (if i < length s then
        (let left = take i s;
             right = drop i s;
             score_l = score_u freq left;
             score_r = score_u freq right;
             prefix = (is_prefix_u left \<or> is_suffix_u right)
         in case rescale_u dict left score_l of
              Inl e \<Rightarrow> Inl e
            | Inr rescaled_l \<Rightarrow>
           (case rescale_u dict right score_r of
              Inl e \<Rightarrow> Inl e
            | Inr rescaled_r \<Rightarrow>
           (let to_split_l = (rescaled_l > threshold);
                to_split_r = (rescaled_r > threshold)
            in if \<not> prefix \<and> to_split_l \<and> to_split_r then
                 (if score_l + score_r > max_score
                  then scan_u freq dict s score_ns threshold (i + 1)
                         (Some [left, right]) (score_l + score_r)
                  else scan_u freq dict s score_ns threshold (i + 1) split max_score)
               else if \<not> prefix \<and> to_split_l then
                 (case same_case_split_u freq dict right score_ns of
                    Inl e \<Rightarrow> Inl e
                  | Inr tmp \<Rightarrow>
                      (case tmp of
                         [] \<Rightarrow> Inl IndexError
                       | t # _ \<Rightarrow>
                           if t \<noteq> right
                           then scan_u freq dict s score_ns threshold (i + 1)
                                  (Some ([left] @ tmp)) max_score
                           else scan_u freq dict s score_ns threshold (i + 1) split max_score))
               else scan_u freq dict s score_ns threshold (i + 1) split max_score)))
      else Inr split)"
  by pat_completeness auto
termination
proof (relation "inv_image (measure id <*lex*> measure id <*lex*> measure id)
     (\<lambda>x. case x of
         Inl (freq, dict, s, score_ns) \<Rightarrow> (length s, 0::nat, Suc (length s))
       | Inr (freq, dict, s, score_ns, threshold, i, split, max_score) \<Rightarrow>
           (length s, if threshold < 0 then 1 else 0, length s - i))", goal_cases)
  case 1
  show ?case by (intro wf_inv_image wf_lex_prod wf_measure)
next
  case (2 freq dict s score_ns x)
  have "0 \<le> x" using 2 score_u_nonneg [of freq s] by simp
  then show ?case by simp
next
  case 3
  then show ?case by auto
next
  case 4
  then show ?case by auto
next
  case (5 freq dict s score_ns threshold i split max_score x xa xb xc xd b ba xe xf)
  show ?case
  proof (cases "threshold < 0")
    case True
    then show ?thesis using 5 by auto
  next
    case False
    then have "2 \<le> length (take i s)"
      using 5 rescale_u_gt_length [of dict "take i s" xb b threshold] by simp
    then show ?thesis using 5 False by auto
  qed
next
  case 6
  then show ?case by auto
next
  case 7
  then show ?case by auto
next
  case 8
  then show ?case by auto
qed

declare same_case_split_u.simps [simp del] scan_u.simps [simp del]

subsection \<open>The two branches of the scan\<close>

text \<open>
  The tests of one iteration, as the loop computes them: \<^verbatim>\<open>to_split_l\<close> and \<^verbatim>\<open>to_split_r\<close>
  are \<open>to_split\<close> of the left and of the right piece, and \<open>case_1\<close> and \<open>case_2\<close> are the
  conditions of the \<^verbatim>\<open>if\<close> and of the \<^verbatim>\<open>elif\<close> at cut index \<open>i\<close>.
\<close>

definition to_split :: "frequency \<Rightarrow> dictionary \<Rightarrow> real \<Rightarrow> string \<Rightarrow> bool" where
  "to_split freq dict threshold piece =
     (case rescale dict piece (score freq piece) of
        Inl e \<Rightarrow> False
      | Inr rescaled \<Rightarrow> rescaled > threshold)"

definition case_1 :: "frequency \<Rightarrow> dictionary \<Rightarrow> real \<Rightarrow> string \<Rightarrow> nat \<Rightarrow> bool" where
  "case_1 freq dict threshold s i \<longleftrightarrow>
     i < length s \<and> \<not> (is_prefix (take i s) \<or> is_suffix (drop i s)) \<and>
     to_split freq dict threshold (take i s) \<and> to_split freq dict threshold (drop i s)"

definition case_2 :: "frequency \<Rightarrow> dictionary \<Rightarrow> real \<Rightarrow> string \<Rightarrow> nat \<Rightarrow> bool" where
  "case_2 freq dict threshold s i \<longleftrightarrow>
     i < length s \<and> \<not> (is_prefix (take i s) \<or> is_suffix (drop i s)) \<and>
     to_split freq dict threshold (take i s) \<and> \<not> to_split freq dict threshold (drop i s)"

subsection \<open>Frequency models and dictionaries for the examples\<close>

definition freq_get_max :: frequency where
  "freq_get_max w = (if w = ''get'' \<or> w = ''max'' then 900 else 0)"

definition freq_un_max :: frequency where
  "freq_un_max w = (if w = ''un'' \<or> w = ''max'' then 900 else 0)"

definition no_words :: dictionary where
  "no_words w = False"

definition freq_get :: frequency where
  "freq_get w = (if w = ''get'' then 900 else 0)"

definition freq_file :: frequency where
  "freq_file w =
     (if w = ''file'' \<or> w = ''namemaxlen'' \<or> w = ''filename'' \<or> w = ''max'' \<or> w = ''len''
      then 100 else 0)"

definition freq_tie :: frequency where
  "freq_tie w = (if w = ''Max'' then 30 else if w = ''ax'' then 900 else 0)"

definition freq_camel :: frequency where
  "freq_camel w = (if w = ''Max'' then 31 else if w = ''ax'' then 900 else 0)"

definition dict_ax :: dictionary where
  "dict_ax w = (w = ''ax'')"

definition freq_ci :: frequency where
  "freq_ci w = (if lower w = ''get'' \<or> lower w = ''max'' then 900 else 0)"

definition freq_dotted :: "ustring \<Rightarrow> real" where
  "freq_dotted w = (if lower_u w = [105, 775] then 900 else 0)"

definition no_words_u :: "ustring \<Rightarrow> bool" where
  "no_words_u w = False"

section \<open>Properties\<close>

subsection \<open>One iteration of the scan\<close>

lemma rescale_score_ok: "\<exists>r. rescale dict w (score freq w) = Inr r \<and> 0 \<le> r"
  using score_nonneg [of freq w] by (simp add: rescale_def math_pow_def)

lemma scan_exit:
  "\<not> i < length s \<Longrightarrow> scan freq dict s score_ns threshold i split max_score = Inr split"
  by (subst scan.simps) simp

lemma scan_case1:
  assumes "i < length s"
    and "rescale dict (take i s) (score freq (take i s)) = Inr rl"
    and "rescale dict (drop i s) (score freq (drop i s)) = Inr rr"
    and "\<not> (is_prefix (take i s) \<or> is_suffix (drop i s))"
    and "threshold < rl" and "threshold < rr"
  shows "scan freq dict s score_ns threshold i split max_score =
     (if score freq (take i s) + score freq (drop i s) > max_score
      then scan freq dict s score_ns threshold (i + 1) (Some [take i s, drop i s])
             (score freq (take i s) + score freq (drop i s))
      else scan freq dict s score_ns threshold (i + 1) split max_score)"
  using assms by (subst scan.simps) (simp add: Let_def)

lemma scan_case2:
  assumes "i < length s"
    and "rescale dict (take i s) (score freq (take i s)) = Inr rl"
    and "rescale dict (drop i s) (score freq (drop i s)) = Inr rr"
    and "\<not> (is_prefix (take i s) \<or> is_suffix (drop i s))"
    and "threshold < rl" and "\<not> threshold < rr"
    and "same_case_split freq dict (drop i s) score_ns = Inr (t # ts)"
  shows "scan freq dict s score_ns threshold i split max_score =
     (if t \<noteq> drop i s
      then scan freq dict s score_ns threshold (i + 1) (Some ([take i s] @ t # ts)) max_score
      else scan freq dict s score_ns threshold (i + 1) split max_score)"
  using assms by (subst scan.simps) (simp add: Let_def)

lemma scan_skip:
  assumes "i < length s"
    and "rescale dict (take i s) (score freq (take i s)) = Inr rl"
    and "rescale dict (drop i s) (score freq (drop i s)) = Inr rr"
    and "is_prefix (take i s) \<or> is_suffix (drop i s) \<or> \<not> threshold < rl"
  shows "scan freq dict s score_ns threshold i split max_score =
         scan freq dict s score_ns threshold (i + 1) split max_score"
  using assms by (subst scan.simps) (auto simp add: Let_def)


lemma same_case_split_scan_invariant:
  fixes R :: "string \<Rightarrow> string list \<Rightarrow> bool"
  assumes single: "\<And>s. R s [s]"
    and case1: "\<And>s i rl rr.
      \<lbrakk>\<not> length s < 2; \<not> in_dictionary dict s; i < length s;
       rescale dict (take i s) (score freq (take i s)) = Inr rl;
       rescale dict (drop i s) (score freq (drop i s)) = Inr rr;
       max (score freq s) score_ns < rl; max (score freq s) score_ns < rr;
       \<not> is_prefix (take i s); \<not> is_suffix (drop i s)\<rbrakk>
      \<Longrightarrow> R s [take i s, drop i s]"
    and case2: "\<And>s i rl rr t ts.
      \<lbrakk>\<not> length s < 2; \<not> in_dictionary dict s; i < length s;
       rescale dict (take i s) (score freq (take i s)) = Inr rl;
       rescale dict (drop i s) (score freq (drop i s)) = Inr rr;
       max (score freq s) score_ns < rl; \<not> max (score freq s) score_ns < rr;
       \<not> is_prefix (take i s); \<not> is_suffix (drop i s);
       same_case_split freq dict (drop i s) score_ns = Inr (t # ts);
       R (drop i s) (t # ts); t \<noteq> drop i s\<rbrakk>
      \<Longrightarrow> R s (take i s # t # ts)"
  shows "freq' = freq \<and> dict' = dict \<and> ns' = score_ns \<longrightarrow>
          (\<exists>xs. same_case_split freq' dict' s ns' = Inr xs \<and> xs \<noteq> [] \<and> R s xs)"
    and "freq' = freq \<and> dict' = dict \<and> ns' = score_ns \<and> \<not> length s < 2 \<and>
          \<not> in_dictionary dict s \<and> threshold = max (score freq s) score_ns \<and>
          (case split of None \<Rightarrow> True | Some sp \<Rightarrow> sp \<noteq> [] \<and> R s sp) \<longrightarrow>
          (\<exists>r. scan freq' dict' s ns' threshold i split max_score = Inr r \<and>
               (case r of None \<Rightarrow> True | Some sp \<Rightarrow> sp \<noteq> [] \<and> R s sp))"
proof (induction freq' dict' s ns' and freq' dict' s ns' threshold i split max_score
         rule: same_case_split_scan.induct)
    case (1 freq' dict' s ns')
    show ?case
    proof (intro impI, elim conjE)
      assume eq: "freq' = freq" "dict' = dict" "ns' = score_ns"
      show "\<exists>xs. same_case_split freq' dict' s ns' = Inr xs \<and> xs \<noteq> [] \<and> R s xs"
      proof (cases "length s < 2 \<or> in_dictionary dict s")
        case True
        then have "same_case_split freq' dict' s ns' = Inr [s]"
          using eq by (subst same_case_split.simps) auto
        then show ?thesis using single by simp
      next
        case False
        then have gen: "\<not> length s < 2" "\<not> (1 < length s \<and> in_dictionary dict' s)"
          using eq by auto
        from 1 [OF gen refl] eq False
        obtain r where r: "scan freq dict s score_ns (max (score freq s) score_ns) 0 None (- 1) = Inr r"
          and ok: "(case r of None \<Rightarrow> True | Some sp \<Rightarrow> sp \<noteq> [] \<and> R s sp)"
          by auto
        have "same_case_split freq' dict' s ns' =
                Inr (case r of None \<Rightarrow> [s] | Some sp \<Rightarrow> if sp = [] then [s] else sp)"
          using eq gen r by (subst same_case_split.simps) (simp add: Let_def)
        then show ?thesis
          using ok single by (cases r) auto
      qed
    qed
  next
    case (2 freq' dict' s ns' threshold i split max_score)
    show ?case
    proof (intro impI, elim conjE)
      assume eq: "freq' = freq" "dict' = dict" "ns' = score_ns"
        and gen: "\<not> length s < 2" "\<not> in_dictionary dict s"
        and thr: "threshold = max (score freq s) score_ns"
        and ok: "case split of None \<Rightarrow> True | Some sp \<Rightarrow> sp \<noteq> [] \<and> R s sp"
      let ?l = "take i s" and ?r = "drop i s"
      obtain rl where rl: "rescale dict ?l (score freq ?l) = Inr rl"
        using rescale_score_ok by blast
      obtain rr where rr: "rescale dict ?r (score freq ?r) = Inr rr"
        using rescale_score_ok by blast
      note pre = gen thr
      show "\<exists>r. scan freq' dict' s ns' threshold i split max_score = Inr r \<and> (case r of None \<Rightarrow> True | Some sp \<Rightarrow> sp \<noteq> [] \<and> R s sp)"
      proof (cases "i < length s")
        case False
        then show ?thesis using ok by (simp add: scan_exit)
      next
        case inb: True
        show ?thesis
        proof (cases "is_prefix ?l \<or> is_suffix ?r \<or> \<not> threshold < rl")
          case True
          have "scan freq' dict' s ns' threshold i split max_score =
                scan freq' dict' s ns' threshold (i + 1) split max_score"
            using scan_skip [OF inb rl rr True] eq by simp
          moreover have "\<exists>r. scan freq' dict' s ns' threshold (i + 1) split max_score = Inr r \<and> (case r of None \<Rightarrow> True | Some sp \<Rightarrow> sp \<noteq> [] \<and> R s sp)"
            using True 2(6) [OF inb refl refl refl refl refl] rl rr eq pre ok by auto
          ultimately show ?thesis by simp
        next
          case noaffix: False
          show ?thesis
          proof (cases "threshold < rr")
            case True
            have c1: "R s [?l, ?r]"
              using case1 [OF gen inb rl rr] noaffix True thr by auto
            show ?thesis
            proof (cases "max_score < score freq ?l + score freq ?r")
              case big: True
              have "scan freq' dict' s ns' threshold i split max_score =
                    scan freq' dict' s ns' threshold (i + 1) (Some [?l, ?r])
                      (score freq ?l + score freq ?r)"
                using scan_case1 [OF inb rl rr, of threshold] noaffix True big eq by simp
              moreover have "\<exists>r. scan freq' dict' s ns' threshold (i + 1) (Some [?l, ?r])
                      (score freq' ?l + score freq' ?r) = Inr r \<and> (case r of None \<Rightarrow> True | Some sp \<Rightarrow> sp \<noteq> [] \<and> R s sp)"
                using 2(1) [OF inb refl refl refl refl refl] rl rr eq pre noaffix True big c1 by auto
              ultimately show ?thesis using eq by simp
            next
              case small: False
              have "scan freq' dict' s ns' threshold i split max_score =
                    scan freq' dict' s ns' threshold (i + 1) split max_score"
                using scan_case1 [OF inb rl rr, of threshold] noaffix True small eq by simp
              moreover have "\<exists>r. scan freq' dict' s ns' threshold (i + 1) split max_score = Inr r \<and> (case r of None \<Rightarrow> True | Some sp \<Rightarrow> sp \<noteq> [] \<and> R s sp)"
                using 2(2) [OF inb refl refl refl refl refl] rl rr eq pre noaffix True small ok by auto
              ultimately show ?thesis by simp
            qed
          next
            case False
            have "\<exists>xs. same_case_split freq' dict' ?r ns' = Inr xs \<and> xs \<noteq> [] \<and> R ?r xs"
              using 2(3) [OF inb refl refl refl refl refl] rl rr eq noaffix False by auto
            then obtain t ts where tmp: "same_case_split freq dict ?r score_ns = Inr (t # ts)"
              and Rtmp: "R ?r (t # ts)"
              using eq by (auto simp: neq_Nil_conv)
            show ?thesis
            proof (cases "t \<noteq> ?r")
              case True
              have c2: "R s (?l # t # ts)"
                using case2 [OF gen inb rl rr _ _ _ _ tmp Rtmp True] noaffix False thr by auto
              have "scan freq' dict' s ns' threshold i split max_score =
                    scan freq' dict' s ns' threshold (i + 1) (Some ([?l] @ t # ts)) max_score"
                using scan_case2 [OF inb rl rr _ _ _ tmp, of threshold] noaffix False True eq by simp
              moreover have "\<exists>r. scan freq' dict' s ns' threshold (i + 1) (Some ([?l] @ t # ts)) max_score
                       = Inr r \<and> (case r of None \<Rightarrow> True | Some sp \<Rightarrow> sp \<noteq> [] \<and> R s sp)"
                using 2(4) [OF inb refl refl refl refl refl] rl rr eq pre noaffix False tmp True c2
                by auto
              ultimately show ?thesis by simp
            next
              case same: False
              have "scan freq' dict' s ns' threshold i split max_score =
                    scan freq' dict' s ns' threshold (i + 1) split max_score"
                using scan_case2 [OF inb rl rr _ _ _ tmp, of threshold] noaffix False same eq by simp
              moreover have "\<exists>r. scan freq' dict' s ns' threshold (i + 1) split max_score = Inr r \<and> (case r of None \<Rightarrow> True | Some sp \<Rightarrow> sp \<noteq> [] \<and> R s sp)"
                using 2(5) [OF inb refl refl refl refl refl] rl rr eq pre noaffix False tmp same ok
                by auto
              ultimately show ?thesis by simp
            qed
          qed
        qed
      qed
    qed
qed

lemma same_case_split_result_induct:
  fixes R :: "string \<Rightarrow> string list \<Rightarrow> bool"
  assumes single: "\<And>s. R s [s]"
    and case1: "\<And>s i rl rr.
      \<lbrakk>\<not> length s < 2; \<not> in_dictionary dict s; i < length s;
       rescale dict (take i s) (score freq (take i s)) = Inr rl;
       rescale dict (drop i s) (score freq (drop i s)) = Inr rr;
       max (score freq s) score_ns < rl; max (score freq s) score_ns < rr;
       \<not> is_prefix (take i s); \<not> is_suffix (drop i s)\<rbrakk>
      \<Longrightarrow> R s [take i s, drop i s]"
    and case2: "\<And>s i rl rr t ts.
      \<lbrakk>\<not> length s < 2; \<not> in_dictionary dict s; i < length s;
       rescale dict (take i s) (score freq (take i s)) = Inr rl;
       rescale dict (drop i s) (score freq (drop i s)) = Inr rr;
       max (score freq s) score_ns < rl; \<not> max (score freq s) score_ns < rr;
       \<not> is_prefix (take i s); \<not> is_suffix (drop i s);
       same_case_split freq dict (drop i s) score_ns = Inr (t # ts);
       R (drop i s) (t # ts); t \<noteq> drop i s\<rbrakk>
      \<Longrightarrow> R s (take i s # t # ts)"
  shows "\<exists>xs. same_case_split freq dict s score_ns = Inr xs \<and> xs \<noteq> [] \<and> R s xs"
proof -
  have "freq = freq \<and> dict = dict \<and> score_ns = score_ns \<longrightarrow>
          (\<exists>xs. same_case_split freq dict s score_ns = Inr xs \<and> xs \<noteq> [] \<and> R s xs)"
    by (rule same_case_split_scan_invariant(1) [where R = R]) (fact single case1 case2)+
  then show ?thesis by simp
qed

subsection \<open>Concrete values used by the examples\<close>

lemma powr_900: "(900::real) powr (1 / 2) = 30"
proof -
  have "(900::real) powr (1 / 2) = sqrt 900"
    by (simp add: powr_half_sqrt)
  also have "\<dots> = sqrt (30\<^sup>2)" by simp
  also have "\<dots> = 30" by (simp only: real_sqrt_abs)
  finally show ?thesis .
qed

lemma powr_1024: "(1024::real) powr (1 / 2.5) = 16"
proof -
  have "(1024::real) = 4 powr 5" by simp
  then have "(1024::real) powr (1 / 2.5) = (4 powr 5) powr (1 / 2.5)" by simp
  also have "\<dots> = 4 powr 2" by (simp only: powr_powr) simp
  also have "\<dots> = 16" by simp
  finally show ?thesis .
qed

lemma lower_GET: "lower ''GET'' = ''get''"
  by code_simp

lemma affix_get_max: "\<not> is_prefix ''get''" "\<not> is_suffix ''max''"
  by code_simp+

lemma affix_un: "is_prefix ''un''"
  by code_simp

lemma split_getmax:
  "same_case_split freq_get_max no_words ''getmax'' 0 = Inr [''get'', ''max'']"
  apply (subst same_case_split.simps)
  apply (simp add: in_dictionary_def no_words_def Let_def score_def freq_get_max_def)
  apply (subst scan.simps, simp add: Let_def score_def freq_get_max_def rescale_def math_pow_def
      in_dictionary_def no_words_def affix_get_max)+
  done

lemma split_unmax:
  "same_case_split freq_un_max no_words ''unmax'' 0 = Inr [''unmax'']"
  apply (subst same_case_split.simps)
  apply (simp add: in_dictionary_def no_words_def Let_def score_def freq_un_max_def)
  apply (subst scan.simps, simp add: Let_def score_def freq_un_max_def rescale_def math_pow_def
      in_dictionary_def no_words_def affix_un)+
  done

subsection \<open>Splitting preserves the characters\<close>

lemma same_case_split_concat:
  "\<exists>xs. same_case_split freq dict s score_ns = Inr xs \<and> xs \<noteq> [] \<and> concat xs = s"
  by (rule same_case_split_result_induct [where R = "\<lambda>s xs. concat xs = s"]) simp_all

lemma transition_parts_concat:
  "\<exists>parts. transition_parts freq dict s = Inr parts \<and> concat parts = s"
proof (cases "re_search s")
  case None
  then show ?thesis by (simp add: transition_parts_def)
next
  case (Some i)
  obtain r where r: "rescale dict (drop (i + 1) s) (score freq (drop (i + 1) s)) = Inr r"
    using rescale_score_ok by blast
  show ?thesis
    using Some r by (simp add: transition_parts_def Let_def)
qed

lemma split_segments_concat:
  "\<exists>r. split_segments freq dict segments splits = Inr r \<and>
       concat r = concat splits @ concat segments"
proof (induction segments arbitrary: splits)
  case Nil
  show ?case by simp
next
  case (Cons s segments)
  obtain parts where p: "transition_parts freq dict s = Inr parts" "concat parts = s"
    using transition_parts_concat by blast
  from Cons [of "splits @ parts"] p show ?case by simp
qed

lemma split_tokens_concat:
  "\<exists>r. split_tokens freq dict tokens results = Inr r \<and>
       concat r = concat results @ concat tokens"
proof (induction tokens arbitrary: results)
  case Nil
  show ?case by simp
next
  case (Cons token tokens)
  obtain xs where xs: "same_case_split freq dict token (score freq token) = Inr xs"
    "concat xs = token"
    using same_case_split_concat by blast
  from Cons [of "results @ xs"] xs show ?case by simp
qed

text \<open>
  Claim C1. Splitting only inserts boundaries: \<open>same_case_split\<close> returns, for every string
  and every \<open>score_ns\<close>, a list whose concatenation is the string, and \<open>samurai_split\<close>
  returns a list whose concatenation is that of the segments of \<open>simple_split\<close>, hence
  the identifier itself whenever \<open>simple_split\<close> preserves the characters. Neither raises.
\<close>

theorem split_preserves_characters:
  "(\<exists>xs. same_case_split freq dict s score_ns = Inr xs \<and> concat xs = s) \<and>
   (\<exists>ys. samurai_split freq dict simple_split x = Inr ys \<and>
         concat ys = concat (simple_split x) \<and>
         (concat (simple_split x) = x \<longrightarrow> concat ys = x))"
proof
  show "\<exists>xs. same_case_split freq dict s score_ns = Inr xs \<and> concat xs = s"
    using same_case_split_concat [of freq dict s score_ns] by blast
next
  obtain splits where sp: "split_segments freq dict (simple_split x) [] = Inr splits"
    "concat splits = concat (simple_split x)"
    using split_segments_concat [of freq dict "simple_split x" "[]"] by auto
  obtain ys where ys: "split_tokens freq dict splits [] = Inr ys" "concat ys = concat splits"
    using split_tokens_concat [of freq dict splits "[]"] by auto
  show "\<exists>ys. samurai_split freq dict simple_split x = Inr ys \<and>
         concat ys = concat (simple_split x) \<and>
         (concat (simple_split x) = x \<longrightarrow> concat ys = x)"
    using sp ys by (simp add: samurai_split_def)
qed

lemma samurai_getmax:
  "samurai_split freq_get_max no_words (\<lambda>x. [x]) ''getmax'' = Inr [''get'', ''max'']"
proof -
  have "re_search ''getmax'' = None"
    by (simp add: upper_AZ_def lower_az_def)
  moreover have "score freq_get_max ''getmax'' = 0"
    by (simp add: score_def freq_get_max_def)
  ultimately show ?thesis
    by (simp add: samurai_split_def transition_parts_def split_getmax del: re_search.simps)
qed

theorem split_preserves_characters_witness:
  "concat ((\<lambda>x. [x]) ''getmax'') = ''getmax'' \<and>
   samurai_split freq_get_max no_words (\<lambda>x. [x]) ''getmax'' = Inr [''get'', ''max''] \<and>
   concat [''get'', ''max''] = ''getmax''"
  using split_preserves_characters [of freq_get_max no_words _ _ "\<lambda>x. [x]" "''getmax''"]
  by (simp add: samurai_getmax)

subsection \<open>The base cases\<close>

text \<open>
  Claim C5. A token shorter than two characters, and a token of more than one character
  that the dictionary accepts once it is lower-cased, is returned unchanged as a singleton
  list, whatever \<open>score_ns\<close> is.
\<close>

theorem same_case_split_base_cases:
  "(length t < 2 \<longrightarrow> same_case_split freq dict t score_ns = Inr [t]) \<and>
   (1 < length w \<and> in_dictionary dict w \<longrightarrow> same_case_split freq dict w score_ns = Inr [w])"
  by (simp add: same_case_split.simps)

theorem same_case_split_base_cases_witness:
  "length ''x'' < 2 \<and> same_case_split (\<lambda>w. 0) (\<lambda>w. w = ''get'') ''x'' 5 = Inr [''x''] \<and>
   1 < length ''GET'' \<and> in_dictionary (\<lambda>w. w = ''get'') ''GET'' \<and>
   same_case_split (\<lambda>w. 0) (\<lambda>w. w = ''get'') ''GET'' 5 = Inr [''GET'']"
proof -
  have d: "in_dictionary (\<lambda>w. w = ''get'') ''GET''"
    by (simp add: in_dictionary_def lower_GET)
  show ?thesis
    using same_case_split_base_cases
      [of "''x''" "\<lambda>w. 0" "\<lambda>w. w = ''get''" 5 "''GET''"] d
    by simp
qed

subsection \<open>Rescaling\<close>

text \<open>
  Claim C8. \<open>rescale\<close> returns 0 for a token of at most one character; for a score that is
  not negative it returns the square root of the score when the token has two to four
  characters and is a dictionary word, and the score to the power \<open>1 / 2.5\<close> in every other
  case; the score 0 is rescaled to 0 for every token.
\<close>

theorem rescale_cases:
  "(length token \<le> 1 \<longrightarrow> rescale dict token value = Inr 0) \<and>
   (0 \<le> value \<and> 2 \<le> length token \<and> length token \<le> 4 \<and> in_dictionary dict token \<longrightarrow>
      rescale dict token value = Inr (value powr (1 / 2))) \<and>
   (0 \<le> value \<and> 2 \<le> length token \<and> \<not> (length token \<le> 4 \<and> in_dictionary dict token) \<longrightarrow>
      rescale dict token value = Inr (value powr (1 / 2.5))) \<and>
   rescale dict token 0 = Inr 0"
  by (auto simp: rescale_def math_pow_def)

theorem rescale_cases_witness:
  "length ''x'' \<le> 1 \<and> rescale (\<lambda>w. w = ''get'') ''x'' 900 = Inr 0 \<and>
   (0::real) \<le> 900 \<and> 2 \<le> length ''GET'' \<and> length ''GET'' \<le> 4 \<and>
   in_dictionary (\<lambda>w. w = ''get'') ''GET'' \<and>
   rescale (\<lambda>w. w = ''get'') ''GET'' 900 = Inr 30 \<and>
   (0::real) \<le> 1024 \<and> 2 \<le> length ''getter'' \<and>
   \<not> (length ''getter'' \<le> 4 \<and> in_dictionary (\<lambda>w. w = ''get'') ''getter'') \<and>
   rescale (\<lambda>w. w = ''get'') ''getter'' 1024 = Inr 16"
proof -
  have d: "in_dictionary (\<lambda>w. w = ''get'') ''GET''"
    by (simp add: in_dictionary_def lower_GET)
  show ?thesis
    using rescale_cases [of "''x''" "\<lambda>w. w = ''get''" 900]
      rescale_cases [of "''GET''" "\<lambda>w. w = ''get''" 900]
      rescale_cases [of "''getter''" "\<lambda>w. w = ''get''" 1024] d
    by (simp add: powr_900 powr_1024)
qed

subsection \<open>Thresholds\<close>

lemma to_split_iff:
  "rescale dict piece (score freq piece) = Inr r \<Longrightarrow> to_split freq dict threshold piece \<longleftrightarrow> threshold < r"
  by (simp add: to_split_def)

lemma to_split_length:
  assumes "to_split freq dict threshold piece" and "0 \<le> threshold"
  shows "2 \<le> length piece"
proof -
  obtain r where r: "rescale dict piece (score freq piece) = Inr r"
    using rescale_score_ok by blast
  with assms have "threshold < r" by (simp add: to_split_def)
  from r this assms(2) show ?thesis by (rule rescale_gt_length)
qed

lemma threshold_nonneg: "0 \<le> max (score freq s) score_ns"
  using score_nonneg [of freq s] by simp

subsection \<open>No short fragments\<close>

lemma fragments_invariant:
  "\<exists>xs. same_case_split freq dict s score_ns = Inr xs \<and> xs \<noteq> [] \<and>
        (xs = [s] \<or> (\<forall>t \<in> set xs. 2 \<le> length t))"
proof (rule same_case_split_result_induct
         [where R = "\<lambda>s xs. xs = [s] \<or> (\<forall>t \<in> set xs. 2 \<le> length t)"], goal_cases)
  case (1 s)
  show ?case by simp
next
  case (2 s i rl rr)
  have "2 \<le> length (take i s)" "2 \<le> length (drop i s)"
    using 2 rescale_gt_length threshold_nonneg by blast+
  then show ?case by simp
next
  case (3 s i rl rr t ts)
  have "2 \<le> length (take i s)"
    using 3 rescale_gt_length threshold_nonneg by blast
  moreover have "\<forall>u \<in> set (t # ts). 2 \<le> length u"
    using 3 by auto
  ultimately show ?case by simp
qed

text \<open>
  Claim C9. If \<open>same_case_split\<close> returns anything other than the singleton of its input,
  every token of the result has at least two characters. (The threshold is never negative,
  because \<open>score\<close> is not, so this needs no assumption on \<open>score_ns\<close> or the frequencies.)
\<close>

theorem no_short_fragments:
  "\<exists>xs. same_case_split freq dict s score_ns = Inr xs \<and>
        (xs \<noteq> [s] \<longrightarrow> (\<forall>t \<in> set xs. 2 \<le> length t))"
  using fragments_invariant [of freq dict s score_ns] by auto

theorem no_short_fragments_witness:
  "same_case_split freq_get_max no_words ''getmax'' 0 = Inr [''get'', ''max''] \<and>
   [''get'', ''max''] \<noteq> [''getmax''] \<and> 2 \<le> length ''get'' \<and> 2 \<le> length ''max''"
  using no_short_fragments [of freq_get_max no_words "''getmax''" 0]
  by (simp add: split_getmax)

subsection \<open>Affix suppression\<close>

lemma affix_result:
  "\<exists>xs. same_case_split freq dict s score_ns = Inr xs \<and> xs \<noteq> [] \<and>
        (\<forall>x y ys. xs = x # y # ys \<longrightarrow> \<not> is_prefix x \<and> \<not> is_suffix (concat (y # ys)))"
proof (rule same_case_split_result_induct
         [where R = "\<lambda>s xs. \<forall>x y ys. xs = x # y # ys \<longrightarrow>
                        \<not> is_prefix x \<and> \<not> is_suffix (concat (y # ys))"], goal_cases)
  case (1 s)
  show ?case by simp
next
  case (2 s i rl rr)
  then show ?case by simp
next
  case (3 s i rl rr t ts)
  obtain xs where "same_case_split freq dict (drop i s) score_ns = Inr xs" "concat xs = drop i s"
    using same_case_split_concat by blast
  with 3 have "concat (t # ts) = drop i s" by simp
  with 3 show ?case by simp
qed

text \<open>
  Claim C4. At a cut index where the left piece is a listed prefix or the right piece a
  listed suffix (after lower-casing), neither branch is taken and the iteration leaves
  \<^verbatim>\<open>split\<close> and \<^verbatim>\<open>max_score\<close> as they were; and the first cut of a result that was split never
  has a listed prefix on its left or a listed suffix on its right. In the example,
  \<^verbatim>\<open>un|max\<close> is the only cut where both pieces exceed the threshold, and the token is
  returned whole.
\<close>

theorem affix_suppression:
  "(i < length s \<and> (is_prefix (take i s) \<or> is_suffix (drop i s)) \<longrightarrow>
      \<not> case_1 freq dict threshold s i \<and> \<not> case_2 freq dict threshold s i \<and>
      scan freq dict s score_ns threshold i split max_score =
      scan freq dict s score_ns threshold (i + 1) split max_score) \<and>
   (same_case_split freq dict s score_ns = Inr (x # y # ys) \<longrightarrow>
      \<not> is_prefix x \<and> \<not> is_suffix (concat (y # ys)))"
proof (intro conjI impI)
  assume a: "i < length s \<and> (is_prefix (take i s) \<or> is_suffix (drop i s))"
  show "\<not> case_1 freq dict threshold s i" "\<not> case_2 freq dict threshold s i"
    using a by (auto simp: case_1_def case_2_def)
  obtain rl where rl: "rescale dict (take i s) (score freq (take i s)) = Inr rl"
    using rescale_score_ok by blast
  obtain rr where rr: "rescale dict (drop i s) (score freq (drop i s)) = Inr rr"
    using rescale_score_ok by blast
  show "scan freq dict s score_ns threshold i split max_score =
        scan freq dict s score_ns threshold (i + 1) split max_score"
    using a by (intro scan_skip [OF _ rl rr]) auto
next
  assume r: "same_case_split freq dict s score_ns = Inr (x # y # ys)"
  show "\<not> is_prefix x" "\<not> is_suffix (concat (y # ys))"
    using affix_result [of freq dict s score_ns] r by auto
qed

theorem affix_suppression_witness:
  "2 < length ''unmax'' \<and> is_prefix (take 2 ''unmax'') \<and>
   to_split freq_un_max no_words 0 (take 2 ''unmax'') \<and>
   to_split freq_un_max no_words 0 (drop 2 ''unmax'') \<and>
   \<not> case_1 freq_un_max no_words 0 ''unmax'' 2 \<and>
   \<not> case_2 freq_un_max no_words 0 ''unmax'' 2 \<and>
   scan freq_un_max no_words ''unmax'' 0 0 2 None (- 1) =
   scan freq_un_max no_words ''unmax'' 0 0 (2 + 1) None (- 1) \<and>
   same_case_split freq_un_max no_words ''unmax'' 0 = Inr [''unmax''] \<and>
   same_case_split freq_get_max no_words ''getmax'' 0 = Inr [''get'', ''max''] \<and>
   \<not> is_prefix ''get'' \<and> \<not> is_suffix (concat [''max''])"
proof -
  have ts: "to_split freq_un_max no_words 0 ''un''" "to_split freq_un_max no_words 0 ''max''"
    by (simp_all add: to_split_def rescale_def math_pow_def score_def freq_un_max_def
        in_dictionary_def no_words_def)
  show ?thesis
    using affix_suppression [of 2 "''unmax''" freq_un_max no_words 0 0 None "- 1"]
      affix_suppression [of _ "''getmax''" freq_get_max no_words _ 0 _ _ "''get''" "''max''" "[]"]
      ts
    by (simp add: affix_un split_unmax split_getmax)
qed

subsection \<open>Termination and the recursive calls\<close>

text \<open>
  \<open>same_case_split_scan_rel x y\<close> is the call relation of the two functions: evaluating the
  call \<open>y\<close> makes the call \<open>x\<close> (\<open>Inl\<close> is a call of \<open>same_case_split\<close>, \<open>Inr\<close> one iteration of
  its loop), and \<open>same_case_split_scan_dom\<close> holds of the calls that terminate.
\<close>

lemma affix_get_zz: "\<not> is_prefix ''get''" "\<not> is_suffix ''zz''" "\<not> is_prefix ''''" "\<not> is_suffix ''getzz''"
  by code_simp+

lemma recursive_call_shrinks:
  assumes "same_case_split_scan_rel (Inl (freq', dict', s', ns'))
             (Inr (freq, dict, s, score_ns, threshold, i, split, max_score))"
    and "0 \<le> threshold"
  shows "freq' = freq \<and> dict' = dict \<and> ns' = score_ns \<and> s' = drop i s \<and>
         case_2 freq dict threshold s i \<and> 2 \<le> i \<and> i < length s \<and> length s' < length s"
  using assms(1)
proof (cases rule: same_case_split_scan_rel.cases)
  case 4
  then have c2: "case_2 freq dict threshold s i"
    by (auto simp: case_2_def to_split_def)
  then have "2 \<le> length (take i s)"
    using to_split_length [of freq dict threshold "take i s"] assms(2)
    by (simp add: case_2_def)
  with 4 c2 show ?thesis by auto
qed

lemma scan_started:
  assumes "same_case_split_scan_rel (Inr (freq', dict', s', ns', threshold, i, split, max_score))
             (Inl (freq, dict, s, score_ns))"
  shows "freq' = freq \<and> dict' = dict \<and> ns' = score_ns \<and> s' = s \<and>
         threshold = max (score freq s) score_ns \<and> 0 \<le> threshold \<and> i = 0"
  using assms
  by (cases rule: same_case_split_scan_rel.cases) (auto simp: threshold_nonneg)

lemma scan_continued:
  assumes "same_case_split_scan_rel (Inr (freq', dict', s', ns', threshold', i', split', max_score'))
             (Inr (freq, dict, s, score_ns, threshold, i, split, max_score))"
  shows "freq' = freq \<and> dict' = dict \<and> ns' = score_ns \<and> s' = s \<and>
         threshold' = threshold \<and> i' = i + 1 \<and> i < length s"
  using assms
  by (cases rule: same_case_split_scan_rel.cases) auto

lemma nested_calls_invariant:
  assumes "same_case_split_scan_rel\<^sup>+\<^sup>+ y (Inl (freq, dict, s, score_ns))"
  shows "case y of
           Inl (freq', dict', s', ns') \<Rightarrow> length s' < length s
         | Inr (freq', dict', s', ns', threshold, i, split, max_score) \<Rightarrow>
             0 \<le> threshold \<and> length s' \<le> length s"
  using assms
proof (induction rule: converse_tranclp_induct)
  case (base y)
  then show ?case
    by (cases rule: same_case_split_scan_rel.cases) (auto simp: threshold_nonneg)
next
  case (step y z)
  show ?case
  proof (cases z)
    case (Inl a)
    obtain f d u n where a: "a = (f, d, u, n)" by (cases a)
    from step(1) show ?thesis
      unfolding Inl a
      using step(3) unfolding Inl a
      by (cases rule: same_case_split_scan_rel.cases) (auto simp: threshold_nonneg)
  next
    case (Inr b)
    obtain f d u n thr j sp mx where b: "b = (f, d, u, n, thr, j, sp, mx)"
      by (cases b) auto
    have thr: "0 \<le> thr" and le: "length u \<le> length s"
      using step(3) unfolding Inr b by simp_all
    show ?thesis
    proof (cases y)
      case (Inl c)
      obtain f' d' u' n' where c: "c = (f', d', u', n')" by (cases c)
      have "length u' < length u"
        using recursive_call_shrinks [of f' d' u' n' f d u n thr j sp mx] step(1) thr
        unfolding Inl Inr b c by auto
      with le show ?thesis unfolding Inl c by simp
    next
      case (Inr c)
      obtain f' d' u' n' thr' j' sp' mx' where c: "c = (f', d', u', n', thr', j', sp', mx')"
        by (cases c) auto
      have "u' = u \<and> thr' = thr"
        using scan_continued [of f' d' u' n' thr' j' sp' mx' f d u n thr j sp mx] step(1)
        unfolding Inr \<open>z = Inr b\<close> b c by simp
      with le thr show ?thesis unfolding Inr c by simp
    qed
  qed
qed

text \<open>
  Claim C2. \<open>same_case_split\<close> terminates on every input and returns a list. Its loop starts
  at index 0 with the threshold \<open>max (score freq s) score_ns\<close>, which is not negative, and
  keeps the token and the threshold; with such a threshold the recursive call is made only
  in the second branch, at a cut index of at least 2 (never 0 or 1), on the suffix
  \<open>drop i s\<close>, which is strictly shorter. Hence every call nested in a call on \<open>s\<close>, at any
  depth, is on a string shorter than \<open>s\<close>, and the recursion depth is bounded by the length
  of the token. No assumption on the frequency model is needed.
\<close>

theorem same_case_split_terminates:
  "same_case_split_scan_dom (Inl (freq, dict, s, score_ns)) \<and>
   (\<exists>xs. same_case_split freq dict s score_ns = Inr xs) \<and>
   (same_case_split_scan_rel (Inr (freq', dict', s', ns', threshold, i, split, max_score))
      (Inl (freq, dict, s, score_ns)) \<longrightarrow>
    s' = s \<and> threshold = max (score freq s) score_ns \<and> 0 \<le> threshold \<and> i = 0) \<and>
   (same_case_split_scan_rel (Inr (freq', dict', s', ns', threshold', i', split', max_score'))
      (Inr (freq, dict, s, score_ns, threshold, i, split, max_score)) \<longrightarrow>
    s' = s \<and> threshold' = threshold \<and> i' = i + 1) \<and>
   (0 \<le> threshold \<and>
    same_case_split_scan_rel (Inl (freq', dict', s', ns'))
      (Inr (freq, dict, s, score_ns, threshold, i, split, max_score)) \<longrightarrow>
    case_2 freq dict threshold s i \<and> 2 \<le> i \<and> s' = drop i s \<and> length s' < length s) \<and>
   (same_case_split_scan_rel\<^sup>+\<^sup>+ (Inl (freq', dict', s', ns')) (Inl (freq, dict, s, score_ns)) \<longrightarrow>
    length s' < length s)"
proof (intro conjI impI)
  show "same_case_split_scan_dom (Inl (freq, dict, s, score_ns))"
    using same_case_split_scan_total by blast
  show "\<exists>xs. same_case_split freq dict s score_ns = Inr xs"
    using same_case_split_concat [of freq dict s score_ns] by blast
next
  assume "same_case_split_scan_rel (Inr (freq', dict', s', ns', threshold, i, split, max_score))
      (Inl (freq, dict, s, score_ns))"
  from scan_started [OF this]
  show "s' = s" "threshold = max (score freq s) score_ns" "0 \<le> threshold" "i = 0"
    by simp_all
next
  assume "same_case_split_scan_rel (Inr (freq', dict', s', ns', threshold', i', split', max_score'))
      (Inr (freq, dict, s, score_ns, threshold, i, split, max_score))"
  from scan_continued [OF this]
  show "s' = s" "threshold' = threshold" "i' = i + 1"
    by simp_all
next
  assume a: "0 \<le> threshold \<and>
    same_case_split_scan_rel (Inl (freq', dict', s', ns'))
      (Inr (freq, dict, s, score_ns, threshold, i, split, max_score))"
  from recursive_call_shrinks [of freq' dict' s' ns' freq dict s score_ns threshold i split max_score] a
  show "case_2 freq dict threshold s i" "2 \<le> i" "s' = drop i s" "length s' < length s"
    by auto
next
  assume "same_case_split_scan_rel\<^sup>+\<^sup>+ (Inl (freq', dict', s', ns')) (Inl (freq, dict, s, score_ns))"
  from nested_calls_invariant [OF this]
  show "length s' < length s" by simp
qed

lemma rel_start:
  "same_case_split_scan_rel (Inr (freq_get, no_words, ''getzz'', 0, 0, 0, None, - 1))
     (Inl (freq_get, no_words, ''getzz'', 0))"
  using same_case_split_scan_rel.intros(1) [of "''getzz''" no_words _ freq_get 0]
  by (simp add: in_dictionary_def no_words_def score_def freq_get_def)

lemma rel_next0:
  "same_case_split_scan_rel (Inr (freq_get, no_words, ''getzz'', 0, 0, 1, None, - 1))
     (Inr (freq_get, no_words, ''getzz'', 0, 0, 0, None, - 1))"
proof -
  have e: "(0::nat) + 1 = 1" by simp
  have "same_case_split_scan_rel (Inr (freq_get, no_words, ''getzz'', 0, 0, 0 + 1, None, - 1))
     (Inr (freq_get, no_words, ''getzz'', 0, 0, 0, None, - 1))"
    by (rule same_case_split_scan_rel.intros(7) [OF _ refl refl refl refl refl _ _ refl refl])
       (simp_all add: rescale_def math_pow_def score_def freq_get_def in_dictionary_def
          no_words_def)+
  then show ?thesis unfolding e .
qed

lemma rel_next1:
  "same_case_split_scan_rel (Inr (freq_get, no_words, ''getzz'', 0, 0, 2, None, - 1))
     (Inr (freq_get, no_words, ''getzz'', 0, 0, 1, None, - 1))"
proof -
  have e: "(1::nat) + 1 = 2" by simp
  have "same_case_split_scan_rel (Inr (freq_get, no_words, ''getzz'', 0, 0, 1 + 1, None, - 1))
     (Inr (freq_get, no_words, ''getzz'', 0, 0, 1, None, - 1))"
    by (rule same_case_split_scan_rel.intros(7) [OF _ refl refl refl refl refl _ _ refl refl])
       (simp_all add: rescale_def math_pow_def score_def freq_get_def in_dictionary_def
          no_words_def)+
  then show ?thesis unfolding e .
qed

lemma rel_next2:
  "same_case_split_scan_rel (Inr (freq_get, no_words, ''getzz'', 0, 0, 3, None, - 1))
     (Inr (freq_get, no_words, ''getzz'', 0, 0, 2, None, - 1))"
proof -
  have e: "(2::nat) + 1 = 3" by simp
  have "same_case_split_scan_rel (Inr (freq_get, no_words, ''getzz'', 0, 0, 2 + 1, None, - 1))
     (Inr (freq_get, no_words, ''getzz'', 0, 0, 2, None, - 1))"
    by (rule same_case_split_scan_rel.intros(7) [OF _ refl refl refl refl refl _ _ refl refl])
       (simp_all add: rescale_def math_pow_def score_def freq_get_def in_dictionary_def
          no_words_def)+
  then show ?thesis unfolding e .
qed

lemma rel_call:
  "same_case_split_scan_rel (Inl (freq_get, no_words, ''zz'', 0))
     (Inr (freq_get, no_words, ''getzz'', 0, 0, 3, None, - 1))"
proof -
  have "same_case_split_scan_rel (Inl (freq_get, no_words, drop 3 ''getzz'', 0))
     (Inr (freq_get, no_words, ''getzz'', 0, 0, 3, None, - 1))"
    by (rule same_case_split_scan_rel.intros(4) [OF _ refl refl refl refl refl _ _ refl refl])
       (simp_all add: rescale_def math_pow_def score_def freq_get_def in_dictionary_def
          no_words_def affix_get_zz)+
  then show ?thesis by simp
qed

lemma rel_nested:
  "same_case_split_scan_rel\<^sup>+\<^sup>+ (Inl (freq_get, no_words, ''zz'', 0))
     (Inl (freq_get, no_words, ''getzz'', 0))"
proof -
  have "same_case_split_scan_rel\<^sup>+\<^sup>+ (Inl (freq_get, no_words, ''zz'', 0))
          (Inr (freq_get, no_words, ''getzz'', 0, 0, 3, None, - 1))"
    using rel_call by (rule tranclp.r_into_trancl)
  then have "same_case_split_scan_rel\<^sup>+\<^sup>+ (Inl (freq_get, no_words, ''zz'', 0))
          (Inr (freq_get, no_words, ''getzz'', 0, 0, 2, None, - 1))"
    using rel_next2 by (rule tranclp.trancl_into_trancl)
  then have "same_case_split_scan_rel\<^sup>+\<^sup>+ (Inl (freq_get, no_words, ''zz'', 0))
          (Inr (freq_get, no_words, ''getzz'', 0, 0, 1, None, - 1))"
    using rel_next1 by (rule tranclp.trancl_into_trancl)
  then have "same_case_split_scan_rel\<^sup>+\<^sup>+ (Inl (freq_get, no_words, ''zz'', 0))
          (Inr (freq_get, no_words, ''getzz'', 0, 0, 0, None, - 1))"
    using rel_next0 by (rule tranclp.trancl_into_trancl)
  then show ?thesis
    using rel_start by (rule tranclp.trancl_into_trancl)
qed

theorem same_case_split_terminates_witness:
  "same_case_split_scan_rel (Inr (freq_get, no_words, ''getzz'', 0, 0, 0, None, - 1))
     (Inl (freq_get, no_words, ''getzz'', 0)) \<and>
   same_case_split_scan_rel (Inr (freq_get, no_words, ''getzz'', 0, 0, 1, None, - 1))
     (Inr (freq_get, no_words, ''getzz'', 0, 0, 0, None, - 1)) \<and>
   (0::real) \<le> 0 \<and>
   same_case_split_scan_rel (Inl (freq_get, no_words, ''zz'', 0))
     (Inr (freq_get, no_words, ''getzz'', 0, 0, 3, None, - 1)) \<and>
   case_2 freq_get no_words 0 ''getzz'' 3 \<and> (2::nat) \<le> 3 \<and> ''zz'' = drop 3 ''getzz'' \<and>
   length ''zz'' < length ''getzz'' \<and>
   same_case_split_scan_rel\<^sup>+\<^sup>+ (Inl (freq_get, no_words, ''zz'', 0))
     (Inl (freq_get, no_words, ''getzz'', 0)) \<and>
   same_case_split_scan_dom (Inl (freq_get, no_words, ''getzz'', 0))"
  using same_case_split_terminates
    [of freq_get no_words "''getzz''" 0 freq_get no_words "''zz''" 0 0 3 None "- 1"]
    rel_start rel_next0 rel_call rel_nested
  by simp

subsection \<open>The order of the two branches\<close>

lemma affix_file:
  "\<not> is_prefix ''file''" "\<not> is_suffix ''namemaxlen''"
  "\<not> is_prefix ''filename''" "\<not> is_suffix ''maxlen''"
  "\<not> is_prefix ''max''" "\<not> is_suffix ''len''"
  by code_simp+

lemma split_maxlen:
  "same_case_split freq_file no_words ''maxlen'' 0 = Inr [''max'', ''len'']"
  apply (subst same_case_split.simps)
  apply (simp add: in_dictionary_def no_words_def Let_def score_def freq_file_def)
  apply (subst scan.simps, simp add: Let_def score_def freq_file_def rescale_def math_pow_def
      in_dictionary_def no_words_def affix_file)+
  done

lemma split_filenamemaxlen:
  "same_case_split freq_file no_words ''filenamemaxlen'' 0 = Inr [''filename'', ''max'', ''len'']"
  apply (subst same_case_split.simps)
  apply (simp add: in_dictionary_def no_words_def Let_def score_def freq_file_def)
  apply (subst scan.simps, simp add: Let_def score_def freq_file_def rescale_def math_pow_def
      in_dictionary_def no_words_def affix_file split_maxlen)+
  done

lemma case_1_file: "case_1 freq_file no_words 0 ''filenamemaxlen'' 4"
  by (simp add: case_1_def to_split_def score_def freq_file_def rescale_def math_pow_def
      in_dictionary_def no_words_def affix_file)

lemma case_2_file: "case_2 freq_file no_words 0 ''filenamemaxlen'' 8"
  by (simp add: case_2_def to_split_def score_def freq_file_def rescale_def math_pow_def
      in_dictionary_def no_words_def affix_file)

lemma threshold_file: "max (score freq_file ''filenamemaxlen'') 0 = 0"
  by (simp add: score_def freq_file_def)

lemma scan_case_1:
  assumes "case_1 freq dict threshold s i"
  shows "scan freq dict s score_ns threshold i split max_score =
     (if max_score < score freq (take i s) + score freq (drop i s)
      then scan freq dict s score_ns threshold (i + 1) (Some [take i s, drop i s])
             (score freq (take i s) + score freq (drop i s))
      else scan freq dict s score_ns threshold (i + 1) split max_score)"
proof -
  obtain rl where rl: "rescale dict (take i s) (score freq (take i s)) = Inr rl"
    using rescale_score_ok by blast
  obtain rr where rr: "rescale dict (drop i s) (score freq (drop i s)) = Inr rr"
    using rescale_score_ok by blast
  show ?thesis
    using assms rl rr by (intro scan_case1 [OF _ rl rr]) (simp_all add: case_1_def to_split_def)
qed

lemma scan_case_2:
  assumes "case_2 freq dict threshold s i"
    and "same_case_split freq dict (drop i s) score_ns = Inr (t # ts)"
  shows "scan freq dict s score_ns threshold i split max_score =
     (if t \<noteq> drop i s
      then scan freq dict s score_ns threshold (i + 1) (Some ([take i s] @ t # ts)) max_score
      else scan freq dict s score_ns threshold (i + 1) split max_score)"
proof -
  obtain rl where rl: "rescale dict (take i s) (score freq (take i s)) = Inr rl"
    using rescale_score_ok by blast
  obtain rr where rr: "rescale dict (drop i s) (score freq (drop i s)) = Inr rr"
    using rescale_score_ok by blast
  show ?thesis
    using assms rl rr
    by (intro scan_case2 [OF _ rl rr _ _ _ assms(2)]) (simp_all add: case_2_def to_split_def)
qed

text \<open>
  Claim C3. An iteration in the first branch replaces the recorded split only when
  \<open>score_l + score_r\<close> exceeds the running maximum, which only this branch changes. An
  iteration in the second branch whose recursive result does not start with the whole right
  piece records \<open>[left] @ tmp\<close> whatever split and maximum were recorded, and leaves the
  maximum as it was. In the example the first branch is taken at index 4 and the second at
  index 8 of \<^verbatim>\<open>filenamemaxlen\<close>, and the result is that of the second.
\<close>

theorem case_2_overwrites_case_1:
  "(case_1 freq dict threshold s i \<longrightarrow>
      scan freq dict s score_ns threshold i split max_score =
        (if max_score < score freq (take i s) + score freq (drop i s)
         then scan freq dict s score_ns threshold (i + 1) (Some [take i s, drop i s])
                (score freq (take i s) + score freq (drop i s))
         else scan freq dict s score_ns threshold (i + 1) split max_score)) \<and>
   (case_2 freq dict threshold s i \<and>
    same_case_split freq dict (drop i s) score_ns = Inr (t # ts) \<longrightarrow>
      scan freq dict s score_ns threshold i split max_score =
        (if t \<noteq> drop i s
         then scan freq dict s score_ns threshold (i + 1) (Some ([take i s] @ t # ts)) max_score
         else scan freq dict s score_ns threshold (i + 1) split max_score)) \<and>
   (\<exists>freq dict s score_ns i j t ts.
      i < j \<and>
      case_1 freq dict (max (score freq s) score_ns) s i \<and>
      case_2 freq dict (max (score freq s) score_ns) s j \<and>
      same_case_split freq dict (drop j s) score_ns = Inr (t # ts) \<and> t \<noteq> drop j s \<and>
      same_case_split freq dict s score_ns = Inr ([take j s] @ t # ts) \<and>
      [take j s] @ t # ts \<noteq> [take i s, drop i s])"
proof (intro conjI impI)
  assume "case_1 freq dict threshold s i"
  then show "scan freq dict s score_ns threshold i split max_score =
        (if max_score < score freq (take i s) + score freq (drop i s)
         then scan freq dict s score_ns threshold (i + 1) (Some [take i s, drop i s])
                (score freq (take i s) + score freq (drop i s))
         else scan freq dict s score_ns threshold (i + 1) split max_score)"
    by (rule scan_case_1)
next
  assume "case_2 freq dict threshold s i \<and>
    same_case_split freq dict (drop i s) score_ns = Inr (t # ts)"
  then show "scan freq dict s score_ns threshold i split max_score =
        (if t \<noteq> drop i s
         then scan freq dict s score_ns threshold (i + 1) (Some ([take i s] @ t # ts)) max_score
         else scan freq dict s score_ns threshold (i + 1) split max_score)"
    using scan_case_2 by blast
next
  have "(4::nat) < 8 \<and>
      case_1 freq_file no_words (max (score freq_file ''filenamemaxlen'') 0) ''filenamemaxlen'' 4 \<and>
      case_2 freq_file no_words (max (score freq_file ''filenamemaxlen'') 0) ''filenamemaxlen'' 8 \<and>
      same_case_split freq_file no_words (drop 8 ''filenamemaxlen'') 0 = Inr (''max'' # [''len'']) \<and>
      ''max'' \<noteq> drop 8 ''filenamemaxlen'' \<and>
      same_case_split freq_file no_words ''filenamemaxlen'' 0 =
        Inr ([take 8 ''filenamemaxlen''] @ ''max'' # [''len'']) \<and>
      [take 8 ''filenamemaxlen''] @ ''max'' # [''len''] \<noteq>
        [take 4 ''filenamemaxlen'', drop 4 ''filenamemaxlen'']"
    by (simp add: threshold_file case_1_file case_2_file split_maxlen split_filenamemaxlen)
  then show "\<exists>freq dict s score_ns i j t ts.
      i < j \<and>
      case_1 freq dict (max (score freq s) score_ns) s i \<and>
      case_2 freq dict (max (score freq s) score_ns) s j \<and>
      same_case_split freq dict (drop j s) score_ns = Inr (t # ts) \<and> t \<noteq> drop j s \<and>
      same_case_split freq dict s score_ns = Inr ([take j s] @ t # ts) \<and>
      [take j s] @ t # ts \<noteq> [take i s, drop i s]"
    by blast
qed

theorem case_2_overwrites_case_1_witness:
  "case_1 freq_file no_words 0 ''filenamemaxlen'' 4 \<and>
   scan freq_file no_words ''filenamemaxlen'' 0 0 4 None (- 1) =
   scan freq_file no_words ''filenamemaxlen'' 0 0 5 (Some [''file'', ''namemaxlen'']) 200 \<and>
   case_2 freq_file no_words 0 ''filenamemaxlen'' 8 \<and>
   same_case_split freq_file no_words (drop 8 ''filenamemaxlen'') 0 = Inr [''max'', ''len''] \<and>
   scan freq_file no_words ''filenamemaxlen'' 0 0 8 (Some [''file'', ''namemaxlen'']) 200 =
   scan freq_file no_words ''filenamemaxlen'' 0 0 9 (Some [''filename'', ''max'', ''len'']) 200 \<and>
   same_case_split freq_file no_words ''filenamemaxlen'' 0 = Inr [''filename'', ''max'', ''len'']"
  using case_2_overwrites_case_1
    [of freq_file no_words 0 "''filenamemaxlen''" 4 0 None "- 1"]
    case_2_overwrites_case_1
    [of freq_file no_words 0 "''filenamemaxlen''" 8 0 "Some [''file'', ''namemaxlen'']" 200
        "''max''" "[''len'']"]
    case_1_file case_2_file
  by (simp add: split_maxlen split_filenamemaxlen score_def freq_file_def)

subsection \<open>The cut indices of the scan\<close>

text \<open>
  An iteration that runs its body makes a call: the recursive call of the second branch, or
  the next test of the loop condition, which is the call of \<open>scan\<close> at \<open>i + 1\<close>. So the cut
  index \<open>i\<close> is examined exactly when the call of \<open>scan\<close> at \<open>i\<close> makes some call.
\<close>

lemma iteration_calls:
  assumes "same_case_split_scan_rel y
             (Inr (freq, dict, s, score_ns, threshold, i, split, max_score))"
  shows "i < length s \<and>
         (y = Inl (freq, dict, drop i s, score_ns) \<or>
          (\<exists>split' max_score'.
             y = Inr (freq, dict, s, score_ns, threshold, i + 1, split', max_score')))"
  using assms
  by (cases rule: same_case_split_scan_rel.cases) auto

lemma iteration_runs:
  assumes "i < length s"
  shows "\<exists>y. same_case_split_scan_rel y
               (Inr (freq, dict, s, score_ns, threshold, i, split, max_score))"
proof -
  let ?l = "take i s" and ?r = "drop i s"
  obtain rl where rl: "rescale dict ?l (score freq ?l) = Inr rl"
    using rescale_score_ok by blast
  obtain rr where rr: "rescale dict ?r (score freq ?r) = Inr rr"
    using rescale_score_ok by blast
  note pre = assms refl refl refl refl refl rl rr refl refl
  consider
      (first_new) "\<not> (is_prefix ?l \<or> is_suffix ?r) \<and> threshold < rl \<and> threshold < rr"
        "max_score < score freq ?l + score freq ?r"
    | (first_old) "\<not> (is_prefix ?l \<or> is_suffix ?r) \<and> threshold < rl \<and> threshold < rr"
        "\<not> max_score < score freq ?l + score freq ?r"
    | (second) "\<not> (\<not> (is_prefix ?l \<or> is_suffix ?r) \<and> threshold < rl \<and> threshold < rr)"
        "\<not> (is_prefix ?l \<or> is_suffix ?r) \<and> threshold < rl"
    | (neither) "\<not> (\<not> (is_prefix ?l \<or> is_suffix ?r) \<and> threshold < rl \<and> threshold < rr)"
        "\<not> (\<not> (is_prefix ?l \<or> is_suffix ?r) \<and> threshold < rl)"
    by blast
  then show ?thesis
  proof cases
    case first_new
    from same_case_split_scan_rel.intros(2) [OF pre first_new] show ?thesis by blast
  next
    case first_old
    from same_case_split_scan_rel.intros(3) [OF pre first_old] show ?thesis by blast
  next
    case second
    from same_case_split_scan_rel.intros(4) [OF pre second] show ?thesis by blast
  next
    case neither
    from same_case_split_scan_rel.intros(7) [OF pre neither] show ?thesis by blast
  qed
qed

lemma scan_started_general:
  assumes "\<not> length s < 2" and "\<not> in_dictionary dict s"
  shows "same_case_split_scan_rel
           (Inr (freq, dict, s, score_ns, max (score freq s) score_ns, 0, None, - 1))
           (Inl (freq, dict, s, score_ns))"
  using assms by (intro same_case_split_scan_rel.intros(1)) auto

lemma scan_iteration:
  assumes "i < length s"
  shows "scan freq dict s score_ns threshold i split max_score =
     (if case_1 freq dict threshold s i then
        (if max_score < score freq (take i s) + score freq (drop i s)
         then scan freq dict s score_ns threshold (i + 1) (Some [take i s, drop i s])
                (score freq (take i s) + score freq (drop i s))
         else scan freq dict s score_ns threshold (i + 1) split max_score)
      else if case_2 freq dict threshold s i then
        (case same_case_split freq dict (drop i s) score_ns of
           Inl e \<Rightarrow> Inl e
         | Inr tmp \<Rightarrow>
             (case tmp of
                [] \<Rightarrow> Inl IndexError
              | t # _ \<Rightarrow>
                  if t \<noteq> drop i s
                  then scan freq dict s score_ns threshold (i + 1)
                         (Some ([take i s] @ tmp)) max_score
                  else scan freq dict s score_ns threshold (i + 1) split max_score))
      else scan freq dict s score_ns threshold (i + 1) split max_score)"
proof -
  obtain rl where rl: "rescale dict (take i s) (score freq (take i s)) = Inr rl"
    using rescale_score_ok by blast
  obtain rr where rr: "rescale dict (drop i s) (score freq (drop i s)) = Inr rr"
    using rescale_score_ok by blast
  show ?thesis
    using assms rl rr
    by (subst scan.simps) (simp add: Let_def case_1_def case_2_def to_split_def)
qed

text \<open>
  Claim C6, as the program has it. The loop runs \<^verbatim>\<open>while i < n\<close>. A call is made from the
  iteration at index \<open>i\<close> only if \<open>i < length s\<close>, and it is the recursive call on \<open>drop i s\<close> or
  the iteration at \<open>i + 1\<close> on the same token; every iteration with \<open>i < length s\<close> does run:
  it works on \<open>left = take i s\<close> and \<open>right = drop i s\<close> and hands over to index \<open>i + 1\<close>. From
  \<open>length s\<close> on the loop has ended and the recorded split is returned. In the general case
  \<open>same_case_split\<close> starts the loop at index 0, the empty-left cut. So the examined indices
  are 0 up to \<open>length s - 1\<close>, and the right piece is never empty.
\<close>

theorem scan_examines_cuts_below_length:
  "(same_case_split_scan_rel y
      (Inr (freq, dict, s, score_ns, threshold, i, split, max_score)) \<longrightarrow>
    i < length s \<and>
    (y = Inl (freq, dict, drop i s, score_ns) \<or>
     (\<exists>split' max_score'.
        y = Inr (freq, dict, s, score_ns, threshold, i + 1, split', max_score')))) \<and>
   (i < length s \<longrightarrow>
    (\<exists>y. same_case_split_scan_rel y
           (Inr (freq, dict, s, score_ns, threshold, i, split, max_score))) \<and>
    scan freq dict s score_ns threshold i split max_score =
     (if case_1 freq dict threshold s i then
        (if max_score < score freq (take i s) + score freq (drop i s)
         then scan freq dict s score_ns threshold (i + 1) (Some [take i s, drop i s])
                (score freq (take i s) + score freq (drop i s))
         else scan freq dict s score_ns threshold (i + 1) split max_score)
      else if case_2 freq dict threshold s i then
        (case same_case_split freq dict (drop i s) score_ns of
           Inl e \<Rightarrow> Inl e
         | Inr tmp \<Rightarrow>
             (case tmp of
                [] \<Rightarrow> Inl IndexError
              | t # _ \<Rightarrow>
                  if t \<noteq> drop i s
                  then scan freq dict s score_ns threshold (i + 1)
                         (Some ([take i s] @ tmp)) max_score
                  else scan freq dict s score_ns threshold (i + 1) split max_score))
      else scan freq dict s score_ns threshold (i + 1) split max_score)) \<and>
   (\<not> i < length s \<longrightarrow>
    scan freq dict s score_ns threshold i split max_score = Inr split) \<and>
   (\<not> length s < 2 \<and> \<not> in_dictionary dict s \<longrightarrow>
    same_case_split_scan_rel
      (Inr (freq, dict, s, score_ns, max (score freq s) score_ns, 0, None, - 1))
      (Inl (freq, dict, s, score_ns)))"
  using iteration_calls [of y freq dict s score_ns threshold i split max_score]
    iteration_runs [of i s freq dict score_ns threshold split max_score]
    scan_iteration [of i s freq dict score_ns threshold split max_score]
    scan_exit [of i s freq dict score_ns threshold split max_score]
    scan_started_general [of s dict freq score_ns]
  by blast

lemma split_zz: "same_case_split freq_get no_words ''zz'' 0 = Inr [''zz'']"
  apply (subst same_case_split.simps)
  apply (simp add: in_dictionary_def no_words_def Let_def score_def freq_get_def)
  apply (subst scan.simps, simp add: Let_def score_def freq_get_def rescale_def math_pow_def
      in_dictionary_def no_words_def)+
  done

lemma case_2_getzz:
  "case_2 freq_get no_words 0 ''getzz'' 3" "\<not> case_1 freq_get no_words 0 ''getzz'' 3"
  by (simp_all add: case_1_def case_2_def to_split_def score_def freq_get_def rescale_def
      math_pow_def in_dictionary_def no_words_def affix_get_zz)

theorem scan_examines_cuts_below_length_witness:
  "same_case_split_scan_rel (Inl (freq_get, no_words, ''zz'', 0))
     (Inr (freq_get, no_words, ''getzz'', 0, 0, 3, None, - 1)) \<and>
   3 < length ''getzz'' \<and> ''zz'' = drop 3 ''getzz'' \<and>
   scan freq_get no_words ''getzz'' 0 0 3 None (- 1) =
   scan freq_get no_words ''getzz'' 0 0 (3 + 1) None (- 1) \<and>
   \<not> 5 < length ''getzz'' \<and>
   scan freq_get no_words ''getzz'' 0 0 5 None (- 1) = Inr None \<and>
   \<not> length ''getzz'' < 2 \<and> \<not> in_dictionary no_words ''getzz'' \<and>
   same_case_split_scan_rel
     (Inr (freq_get, no_words, ''getzz'', 0, max (score freq_get ''getzz'') 0, 0, None, - 1))
     (Inl (freq_get, no_words, ''getzz'', 0))"
  using scan_examines_cuts_below_length
      [of "Inl (freq_get, no_words, ''zz'', 0)" freq_get no_words "''getzz''" 0 0 3 None "- 1"]
    scan_examines_cuts_below_length
      [of _ freq_get no_words "''getzz''" 0 _ 5 None "- 1"]
    rel_call case_2_getzz
  by (simp add: split_zz in_dictionary_def no_words_def)

text \<open>
  The claim as stated includes the cut index \<open>length s\<close>. For the token \<^verbatim>\<open>ab\<close> with no split
  recorded, examining the cut \<^verbatim>\<open>(ab, )\<close> would end in the iteration at index 3 or in the
  recursive call on the empty right piece; the loop makes neither and returns.
\<close>

theorem empty_right_not_examined:
  "\<not> same_case_split_scan_rel
       (Inr (freq_get, no_words, ''ab'', 0, 0, length ''ab'' + 1, None, - 1))
       (Inr (freq_get, no_words, ''ab'', 0, 0, length ''ab'', None, - 1)) \<and>
   \<not> same_case_split_scan_rel
       (Inl (freq_get, no_words, drop (length ''ab'') ''ab'', 0))
       (Inr (freq_get, no_words, ''ab'', 0, 0, length ''ab'', None, - 1)) \<and>
   scan freq_get no_words ''ab'' 0 0 (length ''ab'') None (- 1) = Inr None"
proof (intro conjI notI)
  assume "same_case_split_scan_rel
       (Inr (freq_get, no_words, ''ab'', 0, 0, length ''ab'' + 1, None, - 1))
       (Inr (freq_get, no_words, ''ab'', 0, 0, length ''ab'', None, - 1))"
  from iteration_calls [OF this] show False by simp
next
  assume "same_case_split_scan_rel
       (Inl (freq_get, no_words, drop (length ''ab'') ''ab'', 0))
       (Inr (freq_get, no_words, ''ab'', 0, 0, length ''ab'', None, - 1))"
  from iteration_calls [OF this] show False by simp
next
  show "scan freq_get no_words ''ab'' 0 0 (length ''ab'') None (- 1) = Inr None"
    by (simp add: scan_exit)
qed

subsection \<open>The case transition\<close>

text \<open>\<open>re_search\<close> finds the first index of an upper-case letter followed by a lower-case one.\<close>

lemma re_search_Some_iff:
  "re_search s = Some i \<longleftrightarrow>
     i + 1 < length s \<and> upper_AZ (s ! i) \<and> lower_az (s ! (i + 1)) \<and>
     (\<forall>j<i. \<not> (upper_AZ (s ! j) \<and> lower_az (s ! (j + 1))))"
proof (induction s arbitrary: i rule: re_search.induct)
  case (1 a b cs)
  show ?case
  proof (cases "upper_AZ a \<and> lower_az b")
    case True
    then show ?thesis by (cases i) auto
  next
    case False
    show ?thesis
    proof (cases i)
      case 0
      with False show ?thesis by auto
    next
      case (Suc k)
      have "(\<forall>j<Suc k. \<not> (upper_AZ ((a # b # cs) ! j) \<and> lower_az ((a # b # cs) ! (j + 1)))) \<longleftrightarrow>
            (\<forall>j<k. \<not> (upper_AZ ((b # cs) ! j) \<and> lower_az ((b # cs) ! (j + 1))))"
        using False by (auto simp: less_Suc_eq_0_disj)
      with False Suc 1 [of k] show ?thesis by auto
    qed
  qed
qed simp_all

text \<open>
  Claim C7. For a segment whose first upper-to-lower transition is at an index \<open>i > 0\<close>, the
  parts are \<open>[take i s, drop i s]\<close> exactly when the score of \<open>drop i s\<close> is strictly greater
  than the rescaled score of \<open>drop (i + 1) s\<close>, and \<open>[take (i + 1) s, drop (i + 1) s]\<close>
  otherwise, also when the two are equal.
\<close>

theorem case_transition_tie_break:
  "re_search s = Some i \<and> 0 < i \<longrightarrow>
     (\<exists>r. rescale dict (drop (i + 1) s) (score freq (drop (i + 1) s)) = Inr r \<and>
          transition_parts freq dict s =
            Inr (if r < score freq (drop i s) then [take i s, drop i s]
                 else [take (i + 1) s, drop (i + 1) s]))"
proof
  assume a: "re_search s = Some i \<and> 0 < i"
  obtain r where r: "rescale dict (drop (i + 1) s) (score freq (drop (i + 1) s)) = Inr r"
    using rescale_score_ok by blast
  have "transition_parts freq dict s =
            Inr (if r < score freq (drop i s) then [take i s, drop i s]
                 else [take (i + 1) s, drop (i + 1) s])"
    using a r by (simp add: transition_parts_def Let_def)
  with r show "\<exists>r. rescale dict (drop (i + 1) s) (score freq (drop (i + 1) s)) = Inr r \<and>
          transition_parts freq dict s =
            Inr (if r < score freq (drop i s) then [take i s, drop i s]
                 else [take (i + 1) s, drop (i + 1) s])"
    by blast
qed

lemma re_search_getMax: "re_search ''getMax'' = Some 3"
  by (simp add: upper_AZ_def lower_az_def)

lemma rescale_ax: "rescale dict_ax ''ax'' 900 = Inr 30"
  by (simp add: rescale_def math_pow_def in_dictionary_def dict_ax_def lower_def lower_char_def
      upper_AZ_def powr_900)

theorem case_transition_tie_break_witness:
  "re_search ''getMax'' = Some 3 \<and> (0::nat) < 3 \<and>
   rescale dict_ax (drop (3 + 1) ''getMax'') (score freq_tie (drop (3 + 1) ''getMax'')) = Inr 30 \<and>
   score freq_tie (drop 3 ''getMax'') = 30 \<and>
   transition_parts freq_tie dict_ax ''getMax'' = Inr [''getM'', ''ax''] \<and>
   rescale dict_ax (drop (3 + 1) ''getMax'') (score freq_camel (drop (3 + 1) ''getMax'')) = Inr 30 \<and>
   score freq_camel (drop 3 ''getMax'') = 31 \<and>
   transition_parts freq_camel dict_ax ''getMax'' = Inr [''get'', ''Max'']"
proof -
  have s: "score freq_tie ''ax'' = 900" "score freq_tie ''Max'' = 30"
    "score freq_camel ''ax'' = 900" "score freq_camel ''Max'' = 31"
    by (simp_all add: score_def freq_tie_def freq_camel_def)
  have h: "re_search ''getMax'' = Some 3 \<and> (0::nat) < 3"
    using re_search_getMax by simp
  show ?thesis
    using case_transition_tie_break [of "''getMax''" 3 dict_ax freq_tie, THEN mp, OF h]
      case_transition_tie_break [of "''getMax''" 3 dict_ax freq_camel, THEN mp, OF h] h
    by (simp add: s rescale_ax del: re_search.simps)
qed

subsection \<open>Case does not matter to the same-case splitter on ASCII strings\<close>

lemma lower_char_idem: "lower_char (lower_char c) = lower_char c"
proof (cases "upper_AZ c")
  case True
  then have "of_char (char_of (of_char c + (32::nat))) = (of_char c + 32 :: nat)"
    by (simp add: upper_AZ_def)
  then have "\<not> upper_AZ (char_of (of_char c + (32::nat)))"
    using True by (simp add: upper_AZ_def)
  then show ?thesis by (simp add: lower_char_def)
next
  case False
  then show ?thesis by (simp add: lower_char_def)
qed

lemma lower_idem: "lower (lower s) = lower s"
  by (simp add: lower_def lower_char_idem)

lemma length_lower: "length (lower s) = length s"
  by (simp add: lower_def)

lemma take_lower: "take i (lower s) = lower (take i s)"
  by (simp add: lower_def take_map)

lemma drop_lower: "drop i (lower s) = lower (drop i s)"
  by (simp add: lower_def drop_map)

lemma in_dictionary_lower: "in_dictionary dict (lower s) = in_dictionary dict s"
  by (simp add: in_dictionary_def lower_idem)

lemma is_prefix_lower: "is_prefix (lower s) = is_prefix s"
  by (simp add: is_prefix_def lower_idem)

lemma is_suffix_lower: "is_suffix (lower s) = is_suffix s"
  by (simp add: is_suffix_def lower_idem)

lemma rescale_lower: "rescale dict (lower t) v = rescale dict t v"
  by (simp add: rescale_def length_lower in_dictionary_lower)

lemma is_ascii_take: "is_ascii s \<Longrightarrow> is_ascii (take i s)"
  by (auto simp: is_ascii_def dest: in_set_takeD)

lemma is_ascii_drop: "is_ascii s \<Longrightarrow> is_ascii (drop i s)"
  by (auto simp: is_ascii_def dest: in_set_dropD)

lemma score_lower:
  "\<forall>w. is_ascii w \<longrightarrow> freq (lower w) = freq w \<Longrightarrow> is_ascii w \<Longrightarrow>
     score freq (lower w) = score freq w"
  by (simp add: score_def)

lemma first_eq_lower:
  assumes "concat (t # ts) = r"
  shows "lower t = lower r \<longleftrightarrow> t = r"
proof
  assume "lower t = lower r"
  then have "length t = length r"
    using length_lower [of t] length_lower [of r] by simp
  moreover have "r = t @ concat ts" using assms by simp
  ultimately show "t = r" by simp
qed simp

lemma lower_runs:
  "(\<forall>w. is_ascii w \<longrightarrow> freq (lower w) = freq w) \<and> is_ascii s \<longrightarrow>
     same_case_split freq dict (lower s) score_ns =
       map_sum (\<lambda>e. e) (map lower) (same_case_split freq dict s score_ns)"
  "(\<forall>w. is_ascii w \<longrightarrow> freq (lower w) = freq w) \<and> is_ascii s \<longrightarrow>
     scan freq dict (lower s) score_ns threshold i (map_option (map lower) split) max_score =
       map_sum (\<lambda>e. e) (map_option (map lower)) (scan freq dict s score_ns threshold i split max_score)"
proof (induction freq dict s score_ns and freq dict s score_ns threshold i split max_score
       rule: same_case_split_scan.induct)
  case (1 freq dict s score_ns)
  show ?case
  proof (intro impI, elim conjE)
    assume ci: "\<forall>w. is_ascii w \<longrightarrow> freq (lower w) = freq w" and asc: "is_ascii s"
    show "same_case_split freq dict (lower s) score_ns =
       map_sum (\<lambda>e. e) (map lower) (same_case_split freq dict s score_ns)"
    proof (cases "length s < 2 \<or> in_dictionary dict s")
      case True
      then have "same_case_split freq dict s score_ns = Inr [s]"
        by (subst same_case_split.simps) auto
      moreover have "same_case_split freq dict (lower s) score_ns = Inr [lower s]"
        using True
        by (subst same_case_split.simps) (auto simp: length_lower in_dictionary_lower)
      ultimately show ?thesis by simp
    next
      case False
      then have gen: "\<not> length s < 2" "\<not> (1 < length s \<and> in_dictionary dict s)"
        by auto
      let ?thr = "max (score freq s) score_ns"
      have ih: "scan freq dict (lower s) score_ns ?thr 0 None (- 1) =
                map_sum (\<lambda>e. e) (map_option (map lower)) (scan freq dict s score_ns ?thr 0 None (- 1))"
        using 1 [OF gen refl] ci asc by simp
      have a: "same_case_split freq dict s score_ns =
            (case scan freq dict s score_ns ?thr 0 None (- 1) of
               Inl e \<Rightarrow> Inl e
             | Inr split \<Rightarrow>
                 Inr (case split of None \<Rightarrow> [s] | Some sp \<Rightarrow> if sp = [] then [s] else sp))"
        using gen by (subst same_case_split.simps) (simp add: Let_def)
      have b: "same_case_split freq dict (lower s) score_ns =
            (case scan freq dict (lower s) score_ns ?thr 0 None (- 1) of
               Inl e \<Rightarrow> Inl e
             | Inr split \<Rightarrow>
                 Inr (case split of None \<Rightarrow> [lower s]
                      | Some sp \<Rightarrow> if sp = [] then [lower s] else sp))"
        using gen score_lower [OF ci asc]
        by (subst same_case_split.simps)
           (simp add: Let_def length_lower in_dictionary_lower)
      show ?thesis
        unfolding a b ih
        by (auto split: sum.splits option.splits)
    qed
  qed
next
  case (2 freq dict s score_ns threshold i split max_score)
  show ?case
  proof (intro impI, elim conjE)
    assume ci: "\<forall>w. is_ascii w \<longrightarrow> freq (lower w) = freq w" and asc: "is_ascii s"
    let ?l = "take i s" and ?r = "drop i s"
    let ?ls = "lower s"
    let ?m = "map_option (map lower)"
    obtain rl where rl: "rescale dict ?l (score freq ?l) = Inr rl"
      using rescale_score_ok by blast
    obtain rr where rr: "rescale dict ?r (score freq ?r) = Inr rr"
      using rescale_score_ok by blast
    have sl: "score freq (take i ?ls) = score freq ?l" "score freq (drop i ?ls) = score freq ?r"
      using score_lower [OF ci is_ascii_take [OF asc]] score_lower [OF ci is_ascii_drop [OF asc]]
      by (simp_all add: take_lower drop_lower)
    have rl': "rescale dict (take i ?ls) (score freq (take i ?ls)) = Inr rl"
      using rl sl by (simp add: take_lower rescale_lower)
    have rr': "rescale dict (drop i ?ls) (score freq (drop i ?ls)) = Inr rr"
      using rr sl by (simp add: drop_lower rescale_lower)
    have affix: "(is_prefix (take i ?ls) \<or> is_suffix (drop i ?ls)) =
                 (is_prefix ?l \<or> is_suffix ?r)"
      by (simp add: take_lower drop_lower is_prefix_lower is_suffix_lower)
    show "scan freq dict ?ls score_ns threshold i (?m split) max_score =
       map_sum (\<lambda>e. e) ?m (scan freq dict s score_ns threshold i split max_score)"
    proof (cases "i < length s")
      case False
      then show ?thesis by (simp add: scan_exit length_lower)
    next
      case inb: True
      then have inb': "i < length ?ls" by (simp add: length_lower)
      show ?thesis
      proof (cases "is_prefix ?l \<or> is_suffix ?r \<or> \<not> threshold < rl")
        case True
        have "scan freq dict s score_ns threshold i split max_score =
              scan freq dict s score_ns threshold (i + 1) split max_score"
          using scan_skip [OF inb rl rr True] .
        moreover have "scan freq dict ?ls score_ns threshold i (?m split) max_score =
              scan freq dict ?ls score_ns threshold (i + 1) (?m split) max_score"
          using True affix by (intro scan_skip [OF inb' rl' rr']) blast
        moreover have "scan freq dict ?ls score_ns threshold (i + 1) (?m split) max_score =
              map_sum (\<lambda>e. e) ?m (scan freq dict s score_ns threshold (i + 1) split max_score)"
          using True 2(6) [OF inb refl refl refl refl refl] rl rr ci asc by auto
        ultimately show ?thesis by simp
      next
        case noaffix: False
        then have na: "\<not> (is_prefix ?l \<or> is_suffix ?r)" and tl: "threshold < rl"
          by auto
        have na': "\<not> (is_prefix (take i ?ls) \<or> is_suffix (drop i ?ls))"
          using na affix by simp
        show ?thesis
        proof (cases "threshold < rr")
          case True
          note c1 = scan_case1 [OF inb rl rr na tl True]
          note c1' = scan_case1 [OF inb' rl' rr' na' tl True]
          show ?thesis
          proof (cases "max_score < score freq ?l + score freq ?r")
            case big: True
            have "scan freq dict ?ls score_ns threshold (i + 1)
                    (?m (Some [?l, ?r])) (score freq ?l + score freq ?r) =
                  map_sum (\<lambda>e. e) ?m (scan freq dict s score_ns threshold (i + 1)
                    (Some [?l, ?r]) (score freq ?l + score freq ?r))"
              using 2(1) [OF inb refl refl refl refl refl] rl rr ci asc na tl True big by auto
            then show ?thesis
              using big sl by (simp add: c1 c1' take_lower drop_lower)
          next
            case small: False
            have "scan freq dict ?ls score_ns threshold (i + 1) (?m split) max_score =
                  map_sum (\<lambda>e. e) ?m (scan freq dict s score_ns threshold (i + 1) split max_score)"
              using 2(2) [OF inb refl refl refl refl refl] rl rr ci asc na tl True small by auto
            then show ?thesis
              using small sl by (simp add: c1 c1')
          qed
        next
          case False
          obtain t ts where tmp: "same_case_split freq dict ?r score_ns = Inr (t # ts)"
            and cc: "concat (t # ts) = ?r"
            using same_case_split_concat [of freq dict ?r score_ns]
            by (auto simp: neq_Nil_conv)
          have "same_case_split freq dict (lower ?r) score_ns =
                map_sum (\<lambda>e. e) (map lower) (same_case_split freq dict ?r score_ns)"
            using 2(3) [OF inb refl refl refl refl refl] rl rr ci is_ascii_drop [OF asc] na tl False
            by auto
          then have tmp': "same_case_split freq dict (drop i ?ls) score_ns =
                Inr (lower t # map lower ts)"
            using tmp by (simp add: drop_lower)
          note c2 = scan_case2 [OF inb rl rr na tl False tmp]
          note c2' = scan_case2 [OF inb' rl' rr' na' tl False tmp']
          have neq: "lower t \<noteq> drop i ?ls \<longleftrightarrow> t \<noteq> ?r"
            using first_eq_lower [OF cc] by (simp add: drop_lower)
          show ?thesis
          proof (cases "t \<noteq> ?r")
            case True
            have "scan freq dict ?ls score_ns threshold (i + 1)
                    (?m (Some ([?l] @ t # ts))) max_score =
                  map_sum (\<lambda>e. e) ?m (scan freq dict s score_ns threshold (i + 1)
                    (Some ([?l] @ t # ts)) max_score)"
              using 2(4) [OF inb refl refl refl refl refl] rl rr ci asc na tl False tmp True by auto
            then show ?thesis
              using True neq by (simp add: c2 c2' take_lower)
          next
            case same: False
            have "scan freq dict ?ls score_ns threshold (i + 1) (?m split) max_score =
                  map_sum (\<lambda>e. e) ?m (scan freq dict s score_ns threshold (i + 1) split max_score)"
              using 2(5) [OF inb refl refl refl refl refl] rl rr ci asc na tl False tmp same by auto
            then show ?thesis
              using same neq by (simp add: c2 c2')
          qed
        qed
      qed
    qed
  qed
qed

text \<open>
  Claim C10, for ASCII strings. \<open>lower\<close> is \<^verbatim>\<open>str.lower()\<close> on strings of ASCII characters,
  where it maps character by character and keeps the length. For such a string, and a
  frequency lookup that does not depend on the case of ASCII strings, \<open>same_case_split\<close> of
  the lower-cased string is the elementwise lower-casing of \<open>same_case_split\<close> of the
  string, so the cuts are at the same indices; the dictionary and the affix tests lower-case
  their argument.
\<close>

theorem same_case_split_case_agnostic:
  "(is_ascii s \<and> (\<forall>w. is_ascii w \<longrightarrow> freq (lower w) = freq w) \<longrightarrow>
      (\<exists>xs. same_case_split freq dict s score_ns = Inr xs \<and>
            same_case_split freq dict (lower s) score_ns = Inr (map lower xs))) \<and>
   in_dictionary dict (lower s) = in_dictionary dict s \<and>
   is_prefix (lower s) = is_prefix s \<and> is_suffix (lower s) = is_suffix s"
proof (intro conjI impI)
  assume a: "is_ascii s \<and> (\<forall>w. is_ascii w \<longrightarrow> freq (lower w) = freq w)"
  obtain xs where xs: "same_case_split freq dict s score_ns = Inr xs"
    using same_case_split_concat [of freq dict s score_ns] by blast
  have "same_case_split freq dict (lower s) score_ns =
          map_sum (\<lambda>e. e) (map lower) (same_case_split freq dict s score_ns)"
    using lower_runs(1) [of freq s dict score_ns] a by blast
  with xs show "\<exists>xs. same_case_split freq dict s score_ns = Inr xs \<and>
            same_case_split freq dict (lower s) score_ns = Inr (map lower xs)"
    by simp
qed (simp_all add: in_dictionary_lower is_prefix_lower is_suffix_lower)

lemma lower_chars_GetMAX:
  "lower_char CHR ''G'' = CHR ''g''" "lower_char CHR ''e'' = CHR ''e''"
  "lower_char CHR ''t'' = CHR ''t''" "lower_char CHR ''M'' = CHR ''m''"
  "lower_char CHR ''A'' = CHR ''a''" "lower_char CHR ''X'' = CHR ''x''"
  by code_simp+

lemma affix_Get_MAX: "\<not> is_prefix ''Get''" "\<not> is_suffix ''MAX''"
  by code_simp+

lemma freq_ci_case_insensitive: "\<forall>w. freq_ci (lower w) = freq_ci w"
  by (simp add: freq_ci_def lower_idem)

lemma split_GetMAX:
  "same_case_split freq_ci no_words ''GetMAX'' 0 = Inr [''Get'', ''MAX'']"
  apply (subst same_case_split.simps)
  apply (simp add: in_dictionary_def no_words_def Let_def score_def freq_ci_def lower_def
      lower_chars_GetMAX)
  apply (subst scan.simps, simp add: Let_def score_def freq_ci_def rescale_def math_pow_def
      in_dictionary_def no_words_def affix_Get_MAX lower_def lower_chars_GetMAX)+
  done

theorem same_case_split_case_agnostic_witness:
  "is_ascii ''GetMAX'' \<and> (\<forall>w. freq_ci (lower w) = freq_ci w) \<and>
   same_case_split freq_ci no_words ''GetMAX'' 0 = Inr [''Get'', ''MAX''] \<and>
   lower ''GetMAX'' = ''getmax'' \<and>
   same_case_split freq_ci no_words ''getmax'' 0 = Inr [''get'', ''max'']"
proof -
  have asc: "is_ascii ''GetMAX''"
    by (simp add: is_ascii_def)
  show ?thesis
    using same_case_split_case_agnostic [of "''GetMAX''" freq_ci no_words 0]
      freq_ci_case_insensitive asc
    by (simp add: split_GetMAX lower_def lower_chars_GetMAX)
qed

subsection \<open>Case matters beyond ASCII\<close>

text \<open>
  On the code points below 256, which are those of a HOL string, the functions on code
  points are the functions on strings.
\<close>

lemma ustr_eq_iff: "ustr a = ustr b \<longleftrightarrow> a = b"
  by (simp add: ustr_def inj_map_eq_map [OF inj_of_char])

lemma length_ustr: "length (ustr s) = length s"
  by (simp add: ustr_def)

lemma take_ustr: "take i (ustr s) = ustr (take i s)"
  by (simp add: ustr_def take_map)

lemma drop_ustr: "drop i (ustr s) = ustr (drop i s)"
  by (simp add: ustr_def drop_map)

lemma lower_cp_of_char: "lower_cp (of_char c) = [of_char (lower_char c)]"
proof -
  have "(of_char c :: nat) < 256"
    by (rule nat_of_char_less_256)
  then have "(of_char c :: nat) \<noteq> 304"
    by linarith
  then show ?thesis
    by (simp add: lower_cp_def lower_char_def upper_AZ_def)
qed

lemma lower_u_ustr: "lower_u (ustr s) = ustr (lower s)"
  by (induction s) (simp_all add: lower_u_def ustr_def lower_def lower_cp_of_char)

lemma mem_ustr_iff: "ustr w \<in> ustr ` A \<longleftrightarrow> w \<in> A"
  by (auto simp: ustr_eq_iff)

lemma is_prefix_u_ustr: "is_prefix_u (ustr w) = is_prefix w"
  by (simp add: is_prefix_u_def is_prefix_def lower_u_ustr mem_ustr_iff)

lemma is_suffix_u_ustr: "is_suffix_u (ustr w) = is_suffix w"
  by (simp add: is_suffix_u_def is_suffix_def lower_u_ustr mem_ustr_iff)

lemma in_dictionary_u_ustr: "in_dictionary_u dict (ustr w) = in_dictionary (\<lambda>w. dict (ustr w)) w"
  by (simp add: in_dictionary_u_def in_dictionary_def lower_u_ustr)

lemma score_u_ustr: "score_u freq (ustr w) = score (\<lambda>w. freq (ustr w)) w"
  by (simp add: score_u_def score_def)

lemma rescale_u_ustr: "rescale_u dict (ustr w) v = rescale (\<lambda>w. dict (ustr w)) w v"
  by (simp add: rescale_u_def rescale_def length_ustr in_dictionary_u_ustr)

lemma scan_u_exit:
  "\<not> i < length s \<Longrightarrow> scan_u freq dict s score_ns threshold i split max_score = Inr split"
  by (subst scan_u.simps) simp

lemma scan_u_case1:
  assumes "i < length s"
    and "rescale_u dict (take i s) (score_u freq (take i s)) = Inr rl"
    and "rescale_u dict (drop i s) (score_u freq (drop i s)) = Inr rr"
    and "\<not> (is_prefix_u (take i s) \<or> is_suffix_u (drop i s))"
    and "threshold < rl" and "threshold < rr"
  shows "scan_u freq dict s score_ns threshold i split max_score =
     (if score_u freq (take i s) + score_u freq (drop i s) > max_score
      then scan_u freq dict s score_ns threshold (i + 1) (Some [take i s, drop i s])
             (score_u freq (take i s) + score_u freq (drop i s))
      else scan_u freq dict s score_ns threshold (i + 1) split max_score)"
  using assms by (subst scan_u.simps) (simp add: Let_def)

lemma scan_u_case2:
  assumes "i < length s"
    and "rescale_u dict (take i s) (score_u freq (take i s)) = Inr rl"
    and "rescale_u dict (drop i s) (score_u freq (drop i s)) = Inr rr"
    and "\<not> (is_prefix_u (take i s) \<or> is_suffix_u (drop i s))"
    and "threshold < rl" and "\<not> threshold < rr"
    and "same_case_split_u freq dict (drop i s) score_ns = Inr (t # ts)"
  shows "scan_u freq dict s score_ns threshold i split max_score =
     (if t \<noteq> drop i s
      then scan_u freq dict s score_ns threshold (i + 1) (Some ([take i s] @ t # ts)) max_score
      else scan_u freq dict s score_ns threshold (i + 1) split max_score)"
  using assms by (subst scan_u.simps) (simp add: Let_def)

lemma scan_u_skip:
  assumes "i < length s"
    and "rescale_u dict (take i s) (score_u freq (take i s)) = Inr rl"
    and "rescale_u dict (drop i s) (score_u freq (drop i s)) = Inr rr"
    and "is_prefix_u (take i s) \<or> is_suffix_u (drop i s) \<or> \<not> threshold < rl"
  shows "scan_u freq dict s score_ns threshold i split max_score =
         scan_u freq dict s score_ns threshold (i + 1) split max_score"
  using assms by (subst scan_u.simps) (auto simp add: Let_def)

lemma ustr_runs:
  fixes fu :: "ustring \<Rightarrow> real" and du :: "ustring \<Rightarrow> bool"
  shows "freq = (\<lambda>w. fu (ustr w)) \<and> dict = (\<lambda>w. du (ustr w)) \<longrightarrow>
     same_case_split_u fu du (ustr s) score_ns =
       map_sum (\<lambda>e. e) (map ustr) (same_case_split freq dict s score_ns)"
    and "freq = (\<lambda>w. fu (ustr w)) \<and> dict = (\<lambda>w. du (ustr w)) \<longrightarrow>
     scan_u fu du (ustr s) score_ns threshold i (map_option (map ustr) split) max_score =
       map_sum (\<lambda>e. e) (map_option (map ustr))
         (scan freq dict s score_ns threshold i split max_score)"
proof (induction freq dict s score_ns and freq dict s score_ns threshold i split max_score
       rule: same_case_split_scan.induct)
  case (1 freq dict s score_ns)
  show ?case
  proof (intro impI, elim conjE)
    assume f: "freq = (\<lambda>w. fu (ustr w))" and d: "dict = (\<lambda>w. du (ustr w))"
    have dic: "in_dictionary_u du (ustr s) = in_dictionary dict s"
      using d by (simp add: in_dictionary_u_ustr)
    have sc: "score_u fu (ustr s) = score freq s"
      using f by (simp add: score_u_ustr)
    show "same_case_split_u fu du (ustr s) score_ns =
       map_sum (\<lambda>e. e) (map ustr) (same_case_split freq dict s score_ns)"
    proof (cases "length s < 2 \<or> in_dictionary dict s")
      case True
      then have "same_case_split freq dict s score_ns = Inr [s]"
        by (subst same_case_split.simps) auto
      moreover have "same_case_split_u fu du (ustr s) score_ns = Inr [ustr s]"
        using True dic
        by (subst same_case_split_u.simps) (auto simp: length_ustr)
      ultimately show ?thesis by simp
    next
      case False
      then have gen: "\<not> length s < 2" "\<not> (1 < length s \<and> in_dictionary dict s)"
        by auto
      let ?thr = "max (score freq s) score_ns"
      have ih: "scan_u fu du (ustr s) score_ns ?thr 0 None (- 1) =
                map_sum (\<lambda>e. e) (map_option (map ustr))
                  (scan freq dict s score_ns ?thr 0 None (- 1))"
        using 1 [OF gen refl] f d by simp
      have a: "same_case_split freq dict s score_ns =
            (case scan freq dict s score_ns ?thr 0 None (- 1) of
               Inl e \<Rightarrow> Inl e
             | Inr split \<Rightarrow>
                 Inr (case split of None \<Rightarrow> [s] | Some sp \<Rightarrow> if sp = [] then [s] else sp))"
        using gen by (subst same_case_split.simps) (simp add: Let_def)
      have b: "same_case_split_u fu du (ustr s) score_ns =
            (case scan_u fu du (ustr s) score_ns ?thr 0 None (- 1) of
               Inl e \<Rightarrow> Inl e
             | Inr split \<Rightarrow>
                 Inr (case split of None \<Rightarrow> [ustr s]
                      | Some sp \<Rightarrow> if sp = [] then [ustr s] else sp))"
        using gen dic sc
        by (subst same_case_split_u.simps) (simp add: Let_def length_ustr)
      show ?thesis
        unfolding a b ih
        by (auto split: sum.splits option.splits)
    qed
  qed
next
  case (2 freq dict s score_ns threshold i split max_score)
  show ?case
  proof (intro impI, elim conjE)
    assume f: "freq = (\<lambda>w. fu (ustr w))" and d: "dict = (\<lambda>w. du (ustr w))"
    let ?l = "take i s" and ?r = "drop i s"
    let ?us = "ustr s"
    let ?m = "map_option (map ustr)"
    obtain rl where rl: "rescale dict ?l (score freq ?l) = Inr rl"
      using rescale_score_ok by blast
    obtain rr where rr: "rescale dict ?r (score freq ?r) = Inr rr"
      using rescale_score_ok by blast
    have sl: "score_u fu (take i ?us) = score freq ?l" "score_u fu (drop i ?us) = score freq ?r"
      using f by (simp_all add: take_ustr drop_ustr score_u_ustr)
    have rl': "rescale_u du (take i ?us) (score_u fu (take i ?us)) = Inr rl"
      using rl sl d by (simp add: take_ustr rescale_u_ustr)
    have rr': "rescale_u du (drop i ?us) (score_u fu (drop i ?us)) = Inr rr"
      using rr sl d by (simp add: drop_ustr rescale_u_ustr)
    have affix: "(is_prefix_u (take i ?us) \<or> is_suffix_u (drop i ?us)) =
                 (is_prefix ?l \<or> is_suffix ?r)"
      by (simp add: take_ustr drop_ustr is_prefix_u_ustr is_suffix_u_ustr)
    show "scan_u fu du ?us score_ns threshold i (?m split) max_score =
       map_sum (\<lambda>e. e) ?m (scan freq dict s score_ns threshold i split max_score)"
    proof (cases "i < length s")
      case False
      then show ?thesis by (simp add: scan_exit scan_u_exit length_ustr)
    next
      case inb: True
      then have inb': "i < length ?us" by (simp add: length_ustr)
      show ?thesis
      proof (cases "is_prefix ?l \<or> is_suffix ?r \<or> \<not> threshold < rl")
        case True
        have "scan freq dict s score_ns threshold i split max_score =
              scan freq dict s score_ns threshold (i + 1) split max_score"
          using scan_skip [OF inb rl rr True] .
        moreover have "scan_u fu du ?us score_ns threshold i (?m split) max_score =
              scan_u fu du ?us score_ns threshold (i + 1) (?m split) max_score"
          using True affix by (intro scan_u_skip [OF inb' rl' rr']) blast
        moreover have "scan_u fu du ?us score_ns threshold (i + 1) (?m split) max_score =
              map_sum (\<lambda>e. e) ?m (scan freq dict s score_ns threshold (i + 1) split max_score)"
          using True 2(6) [OF inb refl refl refl refl refl] rl rr f d by auto
        ultimately show ?thesis by simp
      next
        case noaffix: False
        then have na: "\<not> (is_prefix ?l \<or> is_suffix ?r)" and tl: "threshold < rl"
          by auto
        have na': "\<not> (is_prefix_u (take i ?us) \<or> is_suffix_u (drop i ?us))"
          using na affix by simp
        show ?thesis
        proof (cases "threshold < rr")
          case True
          note c1 = scan_case1 [OF inb rl rr na tl True]
          note c1' = scan_u_case1 [OF inb' rl' rr' na' tl True]
          show ?thesis
          proof (cases "max_score < score freq ?l + score freq ?r")
            case big: True
            have "scan_u fu du ?us score_ns threshold (i + 1)
                    (?m (Some [?l, ?r])) (score freq ?l + score freq ?r) =
                  map_sum (\<lambda>e. e) ?m (scan freq dict s score_ns threshold (i + 1)
                    (Some [?l, ?r]) (score freq ?l + score freq ?r))"
              using 2(1) [OF inb refl refl refl refl refl] rl rr f d na tl True big by auto
            then show ?thesis
              using big sl by (simp add: c1 c1' take_ustr drop_ustr)
          next
            case small: False
            have "scan_u fu du ?us score_ns threshold (i + 1) (?m split) max_score =
                  map_sum (\<lambda>e. e) ?m (scan freq dict s score_ns threshold (i + 1) split max_score)"
              using 2(2) [OF inb refl refl refl refl refl] rl rr f d na tl True small by auto
            then show ?thesis
              using small sl by (simp add: c1 c1')
          qed
        next
          case False
          obtain t ts where tmp: "same_case_split freq dict ?r score_ns = Inr (t # ts)"
            using same_case_split_concat [of freq dict ?r score_ns]
            by (auto simp: neq_Nil_conv)
          have "same_case_split_u fu du (ustr ?r) score_ns =
                map_sum (\<lambda>e. e) (map ustr) (same_case_split freq dict ?r score_ns)"
            using 2(3) [OF inb refl refl refl refl refl] rl rr f d na tl False by auto
          then have tmp': "same_case_split_u fu du (drop i ?us) score_ns =
                Inr (ustr t # map ustr ts)"
            using tmp by (simp add: drop_ustr)
          note c2 = scan_case2 [OF inb rl rr na tl False tmp]
          note c2' = scan_u_case2 [OF inb' rl' rr' na' tl False tmp']
          have neq: "ustr t \<noteq> drop i ?us \<longleftrightarrow> t \<noteq> ?r"
            by (simp add: drop_ustr ustr_eq_iff)
          show ?thesis
          proof (cases "t \<noteq> ?r")
            case True
            have "scan_u fu du ?us score_ns threshold (i + 1)
                    (?m (Some ([?l] @ t # ts))) max_score =
                  map_sum (\<lambda>e. e) ?m (scan freq dict s score_ns threshold (i + 1)
                    (Some ([?l] @ t # ts)) max_score)"
              using 2(4) [OF inb refl refl refl refl refl] rl rr f d na tl False tmp True by auto
            then show ?thesis
              using True neq by (simp add: c2 c2' take_ustr)
          next
            case same: False
            have "scan_u fu du ?us score_ns threshold (i + 1) (?m split) max_score =
                  map_sum (\<lambda>e. e) ?m (scan freq dict s score_ns threshold (i + 1) split max_score)"
              using 2(5) [OF inb refl refl refl refl refl] rl rr f d na tl False tmp same by auto
            then show ?thesis
              using same neq by (simp add: c2 c2')
          qed
        qed
      qed
    qed
  qed
qed

lemma same_case_split_u_on_strings:
  "same_case_split_u fu du (ustr s) score_ns =
     map_sum (\<lambda>e. e) (map ustr)
       (same_case_split (\<lambda>w. fu (ustr w)) (\<lambda>w. du (ustr w)) s score_ns)"
  using ustr_runs(1) [of "\<lambda>w. fu (ustr w)" fu "\<lambda>w. du (ustr w)" du s score_ns] by simp

lemma lower_cp_fixed: "\<forall>d \<in> set (lower_cp c). lower_cp d = [d]"
  by (auto simp: lower_cp_def)

lemma lower_u_idem: "lower_u (lower_u w) = lower_u w"
proof -
  have "\<And>v. \<forall>d \<in> set v. lower_cp d = [d] \<Longrightarrow> lower_u v = v"
  proof -
    fix v :: ustring
    show "\<forall>d \<in> set v. lower_cp d = [d] \<Longrightarrow> lower_u v = v"
      by (induction v) (simp_all add: lower_u_def)
  qed
  moreover have "\<forall>d \<in> set (lower_u w). lower_cp d = [d]"
    using lower_cp_fixed by (auto simp: lower_u_def)
  ultimately show ?thesis by blast
qed

lemma freq_dotted_case_insensitive: "\<forall>w. freq_dotted (lower_u w) = freq_dotted w"
  by (simp add: freq_dotted_def lower_u_idem)

lemma lower_u_dotted: "lower_u [304, 304] = [105, 775, 105, 775]"
  by (simp add: lower_u_def lower_cp_def)

lemma ustr_code_points: "w \<in> set (map ustr xs) \<Longrightarrow> \<forall>c \<in> set w. c < 256"
  by (auto simp: ustr_def)

lemma affix_dotted: "\<not> is_prefix_u [105, 775]" "\<not> is_suffix_u [105, 775]"
proof -
  have l: "lower_u [105, 775] = [105, 775]"
    by (simp add: lower_u_def lower_cp_def)
  show "\<not> is_prefix_u [105, 775]"
    using ustr_code_points [of "[105, 775]" prefix_list] by (auto simp: is_prefix_u_def l)
  show "\<not> is_suffix_u [105, 775]"
    using ustr_code_points [of "[105, 775]" suffix_list] by (auto simp: is_suffix_u_def l)
qed

lemma split_dotted_upper:
  "same_case_split_u freq_dotted no_words_u [304, 304] 0 = Inr [[304, 304]]"
  apply (subst same_case_split_u.simps)
  apply (simp add: in_dictionary_u_def no_words_u_def Let_def score_u_def freq_dotted_def
      lower_u_def lower_cp_def)
  apply (subst scan_u.simps, simp add: Let_def score_u_def freq_dotted_def rescale_u_def
      math_pow_def in_dictionary_u_def no_words_u_def lower_u_def lower_cp_def)+
  done

lemma split_dotted_lower:
  "same_case_split_u freq_dotted no_words_u [105, 775, 105, 775] 0 =
     Inr [[105, 775], [105, 775]]"
  apply (subst same_case_split_u.simps)
  apply (simp add: in_dictionary_u_def no_words_u_def Let_def score_u_def freq_dotted_def
      lower_u_def lower_cp_def)
  apply (subst scan_u.simps, simp add: Let_def score_u_def freq_dotted_def rescale_u_def
      math_pow_def in_dictionary_u_def no_words_u_def lower_u_def lower_cp_def affix_dotted)+
  done

text \<open>
  Claim C10 as stated, for every string, fails. The frequency lookup \<open>freq_dotted\<close> does not
  depend on case. \<^verbatim>\<open>U+0130 U+0130\<close> has two code points, no cut is examined with a left piece
  of two, and it is returned whole; its lower-casing \<^verbatim>\<open>U+0069 U+0307 U+0069 U+0307\<close> has
  four and is cut in the middle, which is not the lower-casing of the first result.
\<close>

theorem lower_case_changes_the_cuts:
  "(\<forall>w. freq_dotted (lower_u w) = freq_dotted w) \<and>
   same_case_split_u freq_dotted no_words_u [304, 304] 0 = Inr [[304, 304]] \<and>
   lower_u [304, 304] = [105, 775, 105, 775] \<and>
   same_case_split_u freq_dotted no_words_u (lower_u [304, 304]) 0 =
     Inr [[105, 775], [105, 775]] \<and>
   map lower_u [[304, 304]] = [[105, 775, 105, 775]] \<and>
   [[105, 775], [105, 775]] \<noteq> map lower_u [[304, 304]]"
  using freq_dotted_case_insensitive
  by (simp add: split_dotted_upper split_dotted_lower lower_u_dotted)

end
